theory Spec2Isabelle
  imports Complex_Main "HOL-Library.Sublist" "HOL-Library.Word"
begin

section \<open>Values of the script\<close>

text \<open>
  The program is one Streamlit script, \<^verbatim>\<open>app.py\<close>: two helper functions
  (\<^verbatim>\<open>convert_pdf_to_images\<close>, \<^verbatim>\<open>detect_text_in_image\<close>) and the
  top-level code that runs when the user presses the button. Everything else is a call into
  a library (PyMuPDF, Pillow, google-cloud-vision, python-docx, json) or into Streamlit.

  A Python \<^verbatim>\<open>str\<close> is a sequence of code points, a \<^verbatim>\<open>bytes\<close> object a
  sequence of octets.
\<close>

type_synonym ustr = "nat list"

type_synonym bytes = "8 word list"

definition ascii :: "string \<Rightarrow> ustr" where
  "ascii s = map of_char s"

text \<open>
  An exception object; only \<^verbatim>\<open>str(e)\<close> is ever read (line 146). The model covers
  instances of \<^verbatim>\<open>Exception\<close>, which is what \<^verbatim>\<open>except Exception\<close> catches.
\<close>

datatype exn = Exception (message: ustr)

text \<open>The part of a Vision response the script reads (lines 47-48).\<close>

record annotation =
  description :: ustr

record response =
  text_annotations :: "annotation list"

text \<open>The dict \<^verbatim>\<open>{"language_hints": ["ar"]}\<close> of line 45, as an association list.\<close>

type_synonym image_context = "(ustr \<times> ustr list) list"

text \<open>A PyMuPDF pixmap: the three attributes read on line 30.\<close>

record pixmap =
  width :: nat
  height :: nat
  samples :: bytes

text \<open>The uploaded file: \<^verbatim>\<open>uploaded_file.name\<close> and \<^verbatim>\<open>uploaded_file.getvalue()\<close>.\<close>

record uploaded =
  name :: ustr
  getvalue :: bytes

text \<open>
  The python-docx document: a sequence of paragraphs. A paragraph holds the text it was
  created with or, when \<^verbatim>\<open>add_page_break\<close> created it, a page break, and has an
  alignment or none.
\<close>

datatype alignment = LEFT | CENTER | RIGHT | JUSTIFY

datatype content = Text ustr | Page_break

datatype para = Paragraph content "alignment option"

type_synonym document = "para list"

section \<open>The outside world\<close>

text \<open>
  Every library call that can raise is a parameter: the theorems hold whatever the libraries
  answer. Library objects (the parsed JSON, the credentials, the client, the PDF document,
  a page, a PIL image) are values of one type \<open>'o\<close>. The Vision client is a handle to a
  remote service that may answer the same image differently on another call, so
  \<open>text_detection\<close> takes the client and returns it, changed.

  \<open>img.save(buf, format='PNG')\<close> with \<open>buf.getvalue()\<close> is the one function
  \<open>Image_save\<close>, and \<open>doc.save(buf)\<close> with \<open>buf.getvalue()\<close> the one function
  \<open>docx_save\<close>; \<open>splitext\<close> is \<^verbatim>\<open>os.path.splitext\<close>; \<open>docx_text_error\<close> is the
  exception \<^verbatim>\<open>doc.add_paragraph(text)\<close> raises for a text python-docx cannot
  store (one with a control character, say), if it raises one. Streamlit's display
  calls and the constructors \<^verbatim>\<open>vision.Image\<close>, \<^verbatim>\<open>io.BytesIO\<close>,
  \<^verbatim>\<open>docx.Document\<close> and \<^verbatim>\<open>st.columns\<close> are taken not to raise. Lines 15-75
  only draw the page and read the three inputs of the run; they are not modelled.
\<close>

record 'o env =
  json_loads :: "ustr \<Rightarrow> exn + 'o"
  from_service_account_info :: "'o \<Rightarrow> exn + 'o"
  ImageAnnotatorClient :: "'o \<Rightarrow> exn + 'o"
  fitz_open :: "bytes \<Rightarrow> exn + 'o"
  doc_len :: "'o \<Rightarrow> nat"
  load_page :: "'o \<Rightarrow> nat \<Rightarrow> exn + 'o"
  get_pixmap :: "'o \<Rightarrow> nat \<Rightarrow> exn + pixmap"
  Image_frombytes :: "ustr \<Rightarrow> nat \<times> nat \<Rightarrow> bytes \<Rightarrow> exn + 'o"
  Image_save :: "'o \<Rightarrow> ustr \<Rightarrow> exn + bytes"
  text_detection :: "'o \<Rightarrow> bytes \<Rightarrow> image_context \<Rightarrow> (exn + response) \<times> 'o"
  splitext :: "ustr \<Rightarrow> ustr \<times> ustr"
  docx_text_error :: "ustr \<Rightarrow> exn option"
  docx_save :: "document \<Rightarrow> exn + bytes"

text \<open>
  What a run does that can be seen from outside: what Streamlit shows, and the library calls
  made, in the order they happen. A call to the remote service is recorded with its answer.
\<close>

datatype event =
    St_error ustr
  | St_info ustr
  | St_success ustr
  | St_spinner_enter ustr
  | St_spinner_exit
  | St_progress rat
  | Progress_bar_progress rat
  | St_download_button ustr bytes ustr ustr
  | Call_json_loads ustr
  | Call_from_service_account_info
  | Call_ImageAnnotatorClient
  | Call_fitz_open bytes
  | Call_load_page nat
  | Call_get_pixmap nat
  | Call_Image_frombytes ustr "nat \<times> nat"
  | Call_Image_save ustr
  | Call_close
  | Call_text_detection bytes image_context "exn + response"
  | Call_add_paragraph ustr
  | Call_add_page_break
  | Call_docx_save

text \<open>
  A piece of the script either returns a value or raises, and leaves its events behind in
  both cases.
\<close>

type_synonym 'a io = "(exn + 'a) \<times> event list"

definition returns :: "'a \<Rightarrow> 'a io" where
  "returns x = (Inr x, [])"

definition emit :: "event \<Rightarrow> unit io" where
  "emit ev = (Inr (), [ev])"

definition call :: "event \<Rightarrow> exn + 'a \<Rightarrow> 'a io" where
  "call ev r = (r, [ev])"

definition lift :: "exn + 'a \<Rightarrow> 'a io" where
  "lift r = (r, [])"

definition bind_io :: "'a io \<Rightarrow> ('a \<Rightarrow> 'b io) \<Rightarrow> 'b io" where
  "bind_io m f =
     (case m of
        (Inl e, evs) \<Rightarrow> (Inl e, evs)
      | (Inr x, evs) \<Rightarrow> (case f x of (r, evs') \<Rightarrow> (r, evs @ evs')))"

text \<open>\<^verbatim>\<open>with st.spinner(msg):\<close> the spinner goes away however the block ends.\<close>

definition with_spinner :: "ustr \<Rightarrow> 'a io \<Rightarrow> 'a io" where
  "with_spinner msg body =
     (case body of (r, evs) \<Rightarrow> (r, [St_spinner_enter msg] @ evs @ [St_spinner_exit]))"

section \<open>Built-in operations of Python the script uses\<close>

text \<open>\<^verbatim>\<open>sep.join(items)\<close>.\<close>

fun join :: "ustr \<Rightarrow> ustr list \<Rightarrow> ustr" where
  "join sep [] = []"
| "join sep [x] = x"
| "join sep (x # y # ys) = x @ sep @ join sep (y # ys)"

text \<open>\<^verbatim>\<open>str(n)\<close> for a length, as the f-string of line 98 formats it.\<close>

fun str_nat :: "nat \<Rightarrow> ustr" where
  "str_nat n = (if n < 10 then [48 + n] else str_nat (n div 10) @ [48 + n mod 10])"

declare str_nat.simps [simp del]

text \<open>
  \<^verbatim>\<open>a / b\<close> on integers gives a \<^verbatim>\<open>float\<close>: the double nearest to the quotient,
  ties going to the even significand. A double is kept as the rational number it is.

  \<open>nbits n\<close> is \<^verbatim>\<open>n.bit_length()\<close>; \<open>round_div n d\<close> is the integer nearest to
  \<open>n / d\<close>, ties to even; \<open>pow2_le e a b\<close> says \<open>2\<^sup>e \<le> a / b\<close>. With \<open>e\<close> the
  exponent of the quotient, the doubles around it are the multiples of \<open>2\<^sup>e\<^sup>-\<^sup>5\<^sup>2\<close> (of
  \<open>2\<^sup>-\<^sup>1\<^sup>0\<^sup>7\<^sup>4\<close> below the normal range).
\<close>

fun nbits :: "nat \<Rightarrow> nat" where
  "nbits n = (if n = 0 then 0 else Suc (nbits (n div 2)))"

declare nbits.simps [simp del]

definition round_div :: "int \<Rightarrow> int \<Rightarrow> int" where
  "round_div n d =
     (let f = n div d; r = n mod d
      in if 2 * r < d then f
         else if d < 2 * r then f + 1
         else if even f then f else f + 1)"

definition pow2_le :: "int \<Rightarrow> nat \<Rightarrow> nat \<Rightarrow> bool" where
  "pow2_le e a b = (if 0 \<le> e then 2 ^ nat e * b \<le> a else b \<le> 2 ^ nat (- e) * a)"

definition nearest_double :: "nat \<Rightarrow> nat \<Rightarrow> rat" where
  "nearest_double a b =
     (let e0 = int (nbits a) - int (nbits b);
          e = (if pow2_le e0 a b then e0 else e0 - 1);
          k = max e (- 1022) - 52
      in if 0 \<le> k then of_int (round_div (int a) (int b * 2 ^ nat k)) * 2 ^ nat k
         else of_int (round_div (int a * 2 ^ nat (- k)) (int b)) / 2 ^ nat (- k))"

definition truediv :: "int \<Rightarrow> int \<Rightarrow> exn + rat" where
  "truediv a b =
     (if b = 0 then Inl (Exception (ascii ''division by zero''))
      else if a = 0 then Inr 0
      else
        (let y = nearest_double (nat \<bar>a\<bar>) (nat \<bar>b\<bar>)
         in if 2 ^ 1024 \<le> y then
              Inl (Exception (ascii ''integer division result too large for a float''))
            else Inr (if (a < 0) = (b < 0) then y else - y)))"

text \<open>
  \<^verbatim>\<open>s.encode('utf-8')\<close>: a surrogate code point cannot be encoded and raises (the
  message is abbreviated here). A \<^verbatim>\<open>str\<close> holds no code point above U+10FFFF.
\<close>

definition encode_char :: "nat \<Rightarrow> exn + bytes" where
  "encode_char c =
     (if c < 0x80 then Inr [of_nat c]
      else if c < 0x800 then Inr [of_nat (0xC0 + c div 64), of_nat (0x80 + c mod 64)]
      else if 0xD800 \<le> c \<and> c \<le> 0xDFFF then
        Inl (Exception (ascii ''surrogates not allowed''))
      else if c < 0x10000 then
        Inr [of_nat (0xE0 + c div 4096), of_nat (0x80 + c div 64 mod 64),
             of_nat (0x80 + c mod 64)]
      else if c < 0x110000 then
        Inr [of_nat (0xF0 + c div 262144), of_nat (0x80 + c div 4096 mod 64),
             of_nat (0x80 + c div 64 mod 64), of_nat (0x80 + c mod 64)]
      else Inl (Exception (ascii ''not a code point'')))"

fun encode_utf8 :: "ustr \<Rightarrow> exn + bytes" where
  "encode_utf8 [] = Inr []"
| "encode_utf8 (c # cs) =
     (case encode_char c of
        Inl e \<Rightarrow> Inl e
      | Inr b \<Rightarrow> (case encode_utf8 cs of Inl e \<Rightarrow> Inl e | Inr bs \<Rightarrow> Inr (b @ bs)))"

section \<open>python-docx calls\<close>

text \<open>
  \<^verbatim>\<open>paragraph = doc.add_paragraph(text)\<close> appends a paragraph holding the text and
  returns a reference to it (here, its position in the document), or raises when the text
  cannot be stored. \<^verbatim>\<open>paragraph.alignment = a\<close> then changes that paragraph inside
  the document. \<^verbatim>\<open>doc.add_page_break()\<close> appends a paragraph of its own that holds
  the page break.
\<close>

definition add_paragraph :: "'o env \<Rightarrow> document \<Rightarrow> ustr \<Rightarrow> exn + document \<times> nat" where
  "add_paragraph env d t =
     (case docx_text_error env t of
        Some e \<Rightarrow> Inl e
      | None \<Rightarrow> Inr (d @ [Paragraph (Text t) None], length d))"

definition set_alignment :: "document \<Rightarrow> nat \<Rightarrow> alignment \<Rightarrow> document" where
  "set_alignment d p a =
     (if p < length d then (case d ! p of Paragraph c _ \<Rightarrow> d[p := Paragraph c (Some a)])
      else d)"

definition add_page_break :: "document \<Rightarrow> document" where
  "add_page_break d = d @ [Paragraph Page_break None]"

section \<open>String literals of the script\<close>

definition msg_paste_key :: ustr where
  "msg_paste_key =
     [0x26A0, 0xFE0F] @ ascii '' Please paste your Google API Key in the sidebar to continue.''"

definition msg_processing :: ustr where
  "msg_processing = ascii ''Processing your PDF... This may take a few moments.''"

definition msg_step1 :: ustr where
  "msg_step1 = ascii ''Step 1/3: Converting PDF pages to images...''"

definition msg_step2 :: "nat \<Rightarrow> ustr" where
  "msg_step2 n = ascii ''Step 2/3: Sending '' @ str_nat n @ ascii '' pages to Google for OCR...''"

definition msg_step3 :: ustr where
  "msg_step3 = ascii ''Step 3/3: Preparing your files for download...''"

definition msg_success :: ustr where
  "msg_success = [0x2705] @ ascii '' Success! Your files are ready for download.''"

definition label_txt :: ustr where
  "label_txt = [0x1F4E5] @ ascii '' Download as TXT''"

definition label_docx :: ustr where
  "label_docx = [0x1F4E5] @ ascii '' Download as DOCX''"

definition mime_txt :: ustr where
  "mime_txt = ascii ''text/plain''"

definition mime_docx :: ustr where
  "mime_docx =
     ascii ''application/vnd.openxmlformats-officedocument.wordprocessingml.document''"

definition msg_error_occurred :: "exn \<Rightarrow> ustr" where
  "msg_error_occurred e = ascii ''An error occurred: '' @ message e"

definition msg_hint :: ustr where
  "msg_hint =
     ascii ''Please check your API key and make sure the Cloud Vision API is enabled for your project.''"

text \<open>\<^verbatim>\<open>"\n\n--- Page Break ---\n\n"\<close> and the code point U+202B (line 112).\<close>

definition page_break_sep :: ustr where
  "page_break_sep = [10, 10] @ ascii ''--- Page Break ---'' @ [10, 10]"

definition rtl_marker :: ustr where
  "rtl_marker = [0x202B]"

definition language_hints_ar :: image_context where
  "language_hints_ar = [(ascii ''language_hints'', [ascii ''ar''])]"

section \<open>The helper functions (lines 23-50)\<close>

text \<open>The body of the loop of \<^verbatim>\<open>convert_pdf_to_images\<close>, lines 28-35, for one page.\<close>

definition render_page :: "'o env \<Rightarrow> 'o \<Rightarrow> nat \<Rightarrow> bytes io" where
  "render_page env pdf_document page_num =
     bind_io (call (Call_load_page page_num) (load_page env pdf_document page_num)) (\<lambda>page.
     bind_io (call (Call_get_pixmap 300) (get_pixmap env page 300)) (\<lambda>pix.
     bind_io (call (Call_Image_frombytes (ascii ''RGB'') (width pix, height pix))
                (Image_frombytes env (ascii ''RGB'') (width pix, height pix) (samples pix)))
       (\<lambda>img.
     call (Call_Image_save (ascii ''PNG'')) (Image_save env img (ascii ''PNG'')))))"

text \<open>\<^verbatim>\<open>for page_num in range(len(pdf_document)): ... image_list.append(...)\<close>\<close>

fun convert_loop :: "'o env \<Rightarrow> 'o \<Rightarrow> nat list \<Rightarrow> bytes list \<Rightarrow> bytes list io" where
  "convert_loop env pdf_document [] image_list = returns image_list"
| "convert_loop env pdf_document (page_num # rest) image_list =
     bind_io (render_page env pdf_document page_num) (\<lambda>png.
     convert_loop env pdf_document rest (image_list @ [png]))"

definition convert_pdf_to_images :: "'o env \<Rightarrow> bytes \<Rightarrow> bytes list io" where
  "convert_pdf_to_images env pdf_bytes =
     bind_io (call (Call_fitz_open pdf_bytes) (fitz_open env pdf_bytes)) (\<lambda>pdf_document.
     bind_io (convert_loop env pdf_document [0..<doc_len env pdf_document] []) (\<lambda>image_list.
     bind_io (emit Call_close) (\<lambda>_.
     returns image_list)))"

text \<open>
  \<^verbatim>\<open>detect_text_in_image\<close>, lines 40-50. The result is the text together with the
  client after the call.
\<close>

definition detect_text_in_image :: "'o env \<Rightarrow> bytes \<Rightarrow> 'o \<Rightarrow> (ustr \<times> 'o) io" where
  "detect_text_in_image env image_bytes client =
     (case text_detection env client image_bytes language_hints_ar of
        (answer, client') \<Rightarrow>
          bind_io (call (Call_text_detection image_bytes language_hints_ar answer) answer)
            (\<lambda>response.
               if text_annotations response \<noteq> [] then
                 returns (description (hd (text_annotations response)), client')
               else returns ([], client')))"

section \<open>The run (lines 77-147)\<close>

text \<open>
  \<^verbatim>\<open>for i, image_bytes in enumerate(image_list):\<close> of lines 101-104; the list being
  enumerated is walked with its index beside it.
\<close>

fun ocr_loop ::
  "'o env \<Rightarrow> 'o \<Rightarrow> bytes list \<Rightarrow> nat \<Rightarrow> bytes list \<Rightarrow> ustr list \<Rightarrow> ustr list io" where
  "ocr_loop env client image_list i [] full_text = returns full_text"
| "ocr_loop env client image_list i (image_bytes # rest) full_text =
     bind_io (detect_text_in_image env image_bytes client) (\<lambda>(text_from_page, client').
     bind_io (lift (truediv (int i + 1) (int (length image_list)))) (\<lambda>fraction.
     bind_io (emit (Progress_bar_progress fraction)) (\<lambda>_.
     ocr_loop env client' image_list (i + 1) rest (full_text @ [text_from_page]))))"

text \<open>Line 112.\<close>

definition make_txt_output :: "ustr list \<Rightarrow> ustr" where
  "make_txt_output full_text = rtl_marker @ join page_break_sep full_text"

text \<open>Lines 116-120, again an \<^verbatim>\<open>enumerate\<close> loop.\<close>

fun doc_loop :: "'o env \<Rightarrow> ustr list \<Rightarrow> nat \<Rightarrow> ustr list \<Rightarrow> document \<Rightarrow> document io" where
  "doc_loop env full_text i [] d = returns d"
| "doc_loop env full_text i (page_text # rest) d =
     bind_io (call (Call_add_paragraph page_text) (add_paragraph env d page_text))
       (\<lambda>(d1, paragraph).
     (let d2 = set_alignment d1 paragraph RIGHT in
      bind_io (if int i < int (length full_text) - 1
               then call Call_add_page_break (Inr (add_page_break d2))
               else returns d2) (\<lambda>d3.
      doc_loop env full_text (i + 1) rest d3)))"

text \<open>Lines 115-120: \<^verbatim>\<open>docx.Document()\<close> starts with no content.\<close>

definition build_doc :: "'o env \<Rightarrow> ustr list \<Rightarrow> document io" where
  "build_doc env full_text = doc_loop env full_text 0 full_text []"

text \<open>The variables of the run a theorem may want to speak about, as they are at the end.\<close>

record results =
  image_list :: "bytes list"
  full_text :: "ustr list"
  base_filename :: ustr
  txt_output :: ustr
  doc :: document
  doc_byte_arr :: bytes

text \<open>The block under \<^verbatim>\<open>with st.spinner(...)\<close>, lines 90-124.\<close>

definition processing :: "'o env \<Rightarrow> uploaded \<Rightarrow> 'o \<Rightarrow> results io" where
  "processing env uploaded_file client =
     (let pdf_bytes = getvalue uploaded_file in
      bind_io (emit (St_info msg_step1)) (\<lambda>_.
      bind_io (convert_pdf_to_images env pdf_bytes) (\<lambda>images.
      bind_io (emit (St_info (msg_step2 (length images)))) (\<lambda>_.
      bind_io (emit (St_progress 0)) (\<lambda>_.
      bind_io (ocr_loop env client images 0 images []) (\<lambda>texts.
      bind_io (emit (St_info msg_step3)) (\<lambda>_.
      (let base = fst (splitext env (name uploaded_file));
           txt = make_txt_output texts
       in bind_io (build_doc env texts) (\<lambda>d.
          bind_io (call Call_docx_save (docx_save env d)) (\<lambda>buffer.
          returns \<lparr>image_list = images, full_text = texts, base_filename = base,
                    txt_output = txt, doc = d, doc_byte_arr = buffer\<rparr>))))))))))"

text \<open>The body of the \<^verbatim>\<open>try\<close>, lines 84-143.\<close>

definition try_body :: "'o env \<Rightarrow> uploaded \<Rightarrow> ustr \<Rightarrow> results io" where
  "try_body env uploaded_file api_key_json_str =
     bind_io (call (Call_json_loads api_key_json_str) (json_loads env api_key_json_str))
       (\<lambda>credentials_info.
     bind_io (call Call_from_service_account_info
                (from_service_account_info env credentials_info)) (\<lambda>credentials.
     bind_io (call Call_ImageAnnotatorClient (ImageAnnotatorClient env credentials))
       (\<lambda>client.
     bind_io (with_spinner msg_processing (processing env uploaded_file client)) (\<lambda>r.
     bind_io (emit (St_success msg_success)) (\<lambda>_.
     bind_io (lift (encode_utf8 (txt_output r))) (\<lambda>data.
     bind_io (emit (St_download_button label_txt data
                      (base_filename r @ ascii ''_OCR.txt'') mime_txt)) (\<lambda>_.
     bind_io (emit (St_download_button label_docx (doc_byte_arr r)
                      (base_filename r @ ascii ''_OCR.docx'') mime_docx)) (\<lambda>_.
     returns r))))))))"

text \<open>
  Lines 77-147. The inputs are what the widgets of lines 69, 75 and 79 returned: the pasted
  key, the uploaded file (or \<^verbatim>\<open>None\<close>) and whether the button was pressed. The
  result is everything the run showed and called.
\<close>

definition script :: "'o env \<Rightarrow> uploaded option \<Rightarrow> bool \<Rightarrow> ustr \<Rightarrow> event list" where
  "script env uploaded_file button api_key_json_str =
     (case uploaded_file of
        None \<Rightarrow> []
      | Some f \<Rightarrow>
          if button then
            if api_key_json_str = [] then [St_error msg_paste_key]
            else
              (case try_body env f api_key_json_str of
                 (Inr r, evs) \<Rightarrow> evs
               | (Inl e, evs) \<Rightarrow> evs @ [St_error (msg_error_occurred e), St_error msg_hint])
          else [])"

section \<open>Reading a run\<close>

text \<open>The calls to the remote service in a run: image sent, context sent, answer.\<close>

fun ocr_call :: "event \<Rightarrow> (bytes \<times> image_context \<times> (exn + response)) list" where
  "ocr_call (Call_text_detection img ctx answer) = [(img, ctx, answer)]"
| "ocr_call _ = []"

definition ocr_calls :: "event list \<Rightarrow> (bytes \<times> image_context \<times> (exn + response)) list" where
  "ocr_calls evs = concat (map ocr_call evs)"

definition ocr_requests :: "event list \<Rightarrow> bytes list" where
  "ocr_requests evs = map fst (ocr_calls evs)"

definition ocr_contexts :: "event list \<Rightarrow> image_context list" where
  "ocr_contexts evs = map (\<lambda>c. fst (snd c)) (ocr_calls evs)"

definition ocr_answers :: "event list \<Rightarrow> (exn + response) list" where
  "ocr_answers evs = map (\<lambda>c. snd (snd c)) (ocr_calls evs)"

fun answered :: "exn + response \<Rightarrow> response list" where
  "answered (Inr r) = [r]"
| "answered (Inl e) = []"

text \<open>The responses the remote service gave (the calls that did not raise).\<close>

definition ocr_responses :: "event list \<Rightarrow> response list" where
  "ocr_responses evs = concat (map answered (ocr_answers evs))"

fun progress_report :: "event \<Rightarrow> rat list" where
  "progress_report (Progress_bar_progress q) = [q]"
| "progress_report _ = []"

definition progress_reports :: "event list \<Rightarrow> rat list" where
  "progress_reports evs = concat (map progress_report evs)"

fun is_download :: "event \<Rightarrow> bool" where
  "is_download (St_download_button l b f m) = True"
| "is_download _ = False"

definition downloads :: "event list \<Rightarrow> event list" where
  "downloads evs = filter is_download evs"

text \<open>The buffers offered for download, in order.\<close>

fun download_data :: "event \<Rightarrow> bytes list" where
  "download_data (St_download_button l b f m) = [b]"
| "download_data _ = []"

definition downloaded :: "event list \<Rightarrow> bytes list" where
  "downloaded evs = concat (map download_data evs)"

text \<open>
  The step an event belongs to: 1 for the calls of the rasterizer (4.1), 2 for a call to the
  remote service and the progress update after it (4.2), 3 for building and writing the
  document and offering the two files (4.3). The other events belong to no step.
\<close>

fun step_of :: "event \<Rightarrow> nat list" where
  "step_of (Call_fitz_open b) = [1]"
| "step_of (Call_load_page n) = [1]"
| "step_of (Call_get_pixmap n) = [1]"
| "step_of (Call_Image_frombytes m s) = [1]"
| "step_of (Call_Image_save f) = [1]"
| "step_of Call_close = [1]"
| "step_of (Call_text_detection img ctx answer) = [2]"
| "step_of (Progress_bar_progress q) = [2]"
| "step_of (Call_add_paragraph t) = [3]"
| "step_of Call_add_page_break = [3]"
| "step_of Call_docx_save = [3]"
| "step_of (St_download_button l b f m) = [3]"
| "step_of _ = []"

definition steps :: "event list \<Rightarrow> nat list" where
  "steps evs = concat (map step_of evs)"

text \<open>
  The text the specification takes from a response: the description of the first annotation
  if there is one, the empty string otherwise.
\<close>

definition annotation_text :: "response \<Rightarrow> ustr" where
  "annotation_text r = (case text_annotations r of [] \<Rightarrow> [] | a # _ \<Rightarrow> description a)"

text \<open>
  What a run of the OCR loop over pages \<open>i, i + 1, ...\<close> of \<open>n\<close> looks like when
  every call is answered: the call for a page, then the progress after it.
\<close>

fun page_events :: "nat \<Rightarrow> nat \<Rightarrow> (bytes \<times> response) list \<Rightarrow> event list" where
  "page_events n i [] = []"
| "page_events n i ((img, r) # rest) =
     [Call_text_detection img language_hints_ar (Inr r),
      Progress_bar_progress (nearest_double (i + 1) n)] @ page_events n (i + 1) rest"

text \<open>
  The paragraphs of a document, in order; those of them that hold a text; the number of
  page breaks.
\<close>

fun paragraph_parts :: "para \<Rightarrow> content \<times> alignment option" where
  "paragraph_parts (Paragraph c a) = (c, a)"

definition paragraphs :: "document \<Rightarrow> (content \<times> alignment option) list" where
  "paragraphs d = map paragraph_parts d"

fun text_paragraph :: "para \<Rightarrow> (ustr \<times> alignment option) list" where
  "text_paragraph (Paragraph (Text t) a) = [(t, a)]"
| "text_paragraph (Paragraph Page_break a) = []"

definition text_paragraphs :: "document \<Rightarrow> (ustr \<times> alignment option) list" where
  "text_paragraphs d = concat (map text_paragraph d)"

definition page_breaks :: "document \<Rightarrow> nat" where
  "page_breaks d = length (filter (\<lambda>p. fst (paragraph_parts p) = Page_break) d)"

text \<open>The strings a run puts on the page (the download buttons are read by \<open>downloads\<close>).\<close>

fun shown_by :: "event \<Rightarrow> ustr list" where
  "shown_by (St_error m) = [m]"
| "shown_by (St_info m) = [m]"
| "shown_by (St_success m) = [m]"
| "shown_by (St_spinner_enter m) = [m]"
| "shown_by _ = []"

definition shown :: "event list \<Rightarrow> ustr list" where
  "shown evs = concat (map shown_by evs)"

text \<open>The keys parsed, the files opened and the pages loaded in a run, in order.\<close>

fun json_parse :: "event \<Rightarrow> ustr list" where
  "json_parse (Call_json_loads k) = [k]"
| "json_parse _ = []"

definition json_parses :: "event list \<Rightarrow> ustr list" where
  "json_parses evs = concat (map json_parse evs)"

fun pdf_open :: "event \<Rightarrow> bytes list" where
  "pdf_open (Call_fitz_open b) = [b]"
| "pdf_open _ = []"

definition pdf_opens :: "event list \<Rightarrow> bytes list" where
  "pdf_opens evs = concat (map pdf_open evs)"

fun page_load :: "event \<Rightarrow> nat list" where
  "page_load (Call_load_page n) = [n]"
| "page_load _ = []"

definition page_loads :: "event list \<Rightarrow> nat list" where
  "page_loads evs = concat (map page_load evs)"

text \<open>The texts handed to \<^verbatim>\<open>add_paragraph\<close> in a run, in order.\<close>

fun paragraph_add :: "event \<Rightarrow> ustr list" where
  "paragraph_add (Call_add_paragraph t) = [t]"
| "paragraph_add _ = []"

definition paragraph_adds :: "event list \<Rightarrow> ustr list" where
  "paragraph_adds evs = concat (map paragraph_add evs)"

text \<open>
  The structured document as the specification describes it: one right-aligned paragraph per
  page text, and a page break after every paragraph except the last; with python-docx the
  page break is a paragraph of its own. Beside it, the calls that build it.
\<close>

fun doc_body :: "ustr list \<Rightarrow> document" where
  "doc_body [] = []"
| "doc_body [t] = [Paragraph (Text t) (Some RIGHT)]"
| "doc_body (t # u # us) =
     Paragraph (Text t) (Some RIGHT) # Paragraph Page_break None # doc_body (u # us)"

fun doc_events :: "ustr list \<Rightarrow> event list" where
  "doc_events [] = []"
| "doc_events [t] = [Call_add_paragraph t]"
| "doc_events (t # u # us) = Call_add_paragraph t # Call_add_page_break # doc_events (u # us)"

text \<open>
  The kinds of library call, and the calls of a run of \<open>n\<close> pages in which nothing
  raises: every call once, the calls for a page once per page.
\<close>

datatype call_kind =
    K_json_loads | K_from_service_account_info | K_ImageAnnotatorClient
  | K_fitz_open | K_load_page | K_get_pixmap | K_Image_frombytes | K_Image_save | K_close
  | K_text_detection | K_add_paragraph | K_add_page_break | K_docx_save

fun kind_of :: "event \<Rightarrow> call_kind list" where
  "kind_of (Call_json_loads k) = [K_json_loads]"
| "kind_of Call_from_service_account_info = [K_from_service_account_info]"
| "kind_of Call_ImageAnnotatorClient = [K_ImageAnnotatorClient]"
| "kind_of (Call_fitz_open b) = [K_fitz_open]"
| "kind_of (Call_load_page n) = [K_load_page]"
| "kind_of (Call_get_pixmap n) = [K_get_pixmap]"
| "kind_of (Call_Image_frombytes m s) = [K_Image_frombytes]"
| "kind_of (Call_Image_save f) = [K_Image_save]"
| "kind_of Call_close = [K_close]"
| "kind_of (Call_text_detection img ctx answer) = [K_text_detection]"
| "kind_of (Call_add_paragraph t) = [K_add_paragraph]"
| "kind_of Call_add_page_break = [K_add_page_break]"
| "kind_of Call_docx_save = [K_docx_save]"
| "kind_of _ = []"

definition call_kinds :: "event list \<Rightarrow> call_kind list" where
  "call_kinds evs = concat (map kind_of evs)"


fun paragraph_calls :: "nat \<Rightarrow> call_kind list" where
  "paragraph_calls 0 = []"
| "paragraph_calls (Suc 0) = [K_add_paragraph]"
| "paragraph_calls (Suc (Suc n)) =
     K_add_paragraph # K_add_page_break # paragraph_calls (Suc n)"


text \<open>The number a string of decimal digits stands for.\<close>

definition decimal_value :: "ustr \<Rightarrow> nat" where
  "decimal_value ds = foldl (\<lambda>a c. 10 * a + (c - 48)) 0 ds"

section \<open>The three steps, by what the libraries answer\<close>

text \<open>
  What each step of the run yields, said without the script: the value, or the first
  exception a library call of the step raises. Credentials: parse the key, build the
  credentials, build the client. Rasterizer (4.1): open the PDF and, page by page, load
  the page, render it at 300 dpi, make an RGB image of it and encode that as PNG. OCR
  (4.2): send the images one after the other with the Arabic language hint, and take from
  each response the description of the first annotation, or the empty string.
\<close>

definition credentials_step :: "'o env \<Rightarrow> ustr \<Rightarrow> exn + 'o" where
  "credentials_step env key =
     (case json_loads env key of
        Inl e \<Rightarrow> Inl e
      | Inr info \<Rightarrow>
          (case from_service_account_info env info of
             Inl e \<Rightarrow> Inl e
           | Inr cred \<Rightarrow> ImageAnnotatorClient env cred))"

definition rendered :: "'o env \<Rightarrow> 'o \<Rightarrow> nat \<Rightarrow> exn + bytes" where
  "rendered env d k =
     (case load_page env d k of
        Inl e \<Rightarrow> Inl e
      | Inr page \<Rightarrow>
          (case get_pixmap env page 300 of
             Inl e \<Rightarrow> Inl e
           | Inr pix \<Rightarrow>
               (case Image_frombytes env (ascii ''RGB'') (width pix, height pix) (samples pix) of
                  Inl e \<Rightarrow> Inl e
                | Inr img \<Rightarrow> Image_save env img (ascii ''PNG''))))"

fun rendered_pages :: "'o env \<Rightarrow> 'o \<Rightarrow> nat list \<Rightarrow> exn + bytes list" where
  "rendered_pages env d [] = Inr []"
| "rendered_pages env d (k # ks) =
     (case rendered env d k of
        Inl e \<Rightarrow> Inl e
      | Inr png \<Rightarrow>
          (case rendered_pages env d ks of Inl e \<Rightarrow> Inl e | Inr pngs \<Rightarrow> Inr (png # pngs)))"

definition rasterizer_step :: "'o env \<Rightarrow> bytes \<Rightarrow> exn + bytes list" where
  "rasterizer_step env b =
     (case fitz_open env b of
        Inl e \<Rightarrow> Inl e
      | Inr d \<Rightarrow> rendered_pages env d [0..<doc_len env d])"

fun ocr_step :: "'o env \<Rightarrow> 'o \<Rightarrow> bytes list \<Rightarrow> exn + ustr list" where
  "ocr_step env client [] = Inr []"
| "ocr_step env client (img # imgs) =
     (case text_detection env client img language_hints_ar of
        (Inl e, client') \<Rightarrow> Inl e
      | (Inr r, client') \<Rightarrow>
          (case ocr_step env client' imgs of
             Inl e \<Rightarrow> Inl e
           | Inr ts \<Rightarrow> Inr (annotation_text r # ts)))"

definition steps_outcome :: "'o env \<Rightarrow> uploaded \<Rightarrow> ustr \<Rightarrow> exn + ustr list" where
  "steps_outcome env f key =
     (case credentials_step env key of
        Inl e \<Rightarrow> Inl e
      | Inr client \<Rightarrow>
          (case rasterizer_step env (getvalue f) of
             Inl e \<Rightarrow> Inl e
           | Inr imgs \<Rightarrow> ocr_step env client imgs))"

section \<open>A small world to run the script in\<close>

text \<open>
  A stand-in for the libraries, for running the model on concrete inputs. A PDF of
  \<open>n + 1\<close> bytes has \<open>n\<close> pages and the empty file is not a PDF; page \<open>p\<close>
  renders to the one-byte image \<open>p + 1\<close>; the only key that parses is \<^verbatim>\<open>{}\<close>. The
  remote service answers its first call with two annotations, its second call with none,
  its third call with one, and refuses every later call; the client counts the calls made. A text with a control
  character or a surrogate cannot be stored in a paragraph.
\<close>

definition demo_answer :: "nat \<Rightarrow> exn + response" where
  "demo_answer k =
     (if k = 0 then
        Inr \<lparr>text_annotations =
               [\<lparr>description = [0x645, 0x631, 0x62D, 0x628, 0x627]\<rparr>,
                \<lparr>description = [0x645, 0x631]\<rparr>]\<rparr>
      else if k = 1 then Inr \<lparr>text_annotations = []\<rparr>
      else if k = 2 then Inr \<lparr>text_annotations = [\<lparr>description = [0x633, 0x644, 0x627, 0x645]\<rparr>]\<rparr>
      else Inl (Exception (ascii ''quota exceeded'')))"

definition demo_env :: "nat env" where
  "demo_env =
     \<lparr>json_loads =
        (\<lambda>s. if s = ascii ''{}'' then Inr 0 else Inl (Exception (ascii ''Expecting value''))),
      from_service_account_info = (\<lambda>info. Inr 0),
      ImageAnnotatorClient = (\<lambda>cred. Inr 0),
      fitz_open =
        (\<lambda>b. if b = [] then Inl (Exception (ascii ''cannot open empty document''))
             else Inr (length b - 1)),
      doc_len = (\<lambda>d. d),
      load_page = (\<lambda>d n. Inr n),
      get_pixmap = (\<lambda>p dpi. Inr \<lparr>width = p + 1, height = 1, samples = []\<rparr>),
      Image_frombytes = (\<lambda>mode sz data. Inr (fst sz)),
      Image_save = (\<lambda>img fmt. Inr [of_nat img]),
      text_detection = (\<lambda>client img ctx. (demo_answer client, client + 1)),
      splitext = (\<lambda>p. (takeWhile (\<lambda>c. c \<noteq> 46) p, dropWhile (\<lambda>c. c \<noteq> 46) p)),
      docx_text_error =
        (\<lambda>t. if list_ex (\<lambda>c. c < 32 \<and> c \<noteq> 9 \<and> c \<noteq> 10 \<and> c \<noteq> 13 \<or>
                                0xD800 \<le> c \<and> c \<le> 0xDFFF) t
             then Some (Exception (ascii ''All strings must be XML compatible''))
             else None),
      docx_save = (\<lambda>d. Inr [of_nat (length d)])\<rparr>"

definition demo_key :: ustr where
  "demo_key = ascii ''{}''"

definition demo_pdf :: "nat \<Rightarrow> uploaded" where
  "demo_pdf n = \<lparr>name = ascii ''scan.pdf'', getvalue = replicate (n + 1) 37\<rparr>"

text \<open>A second upload with the same bytes under another name.\<close>

definition demo_copy :: "nat \<Rightarrow> uploaded" where
  "demo_copy n = \<lparr>name = ascii ''copy.v2.pdf'', getvalue = replicate (n + 1) 37\<rparr>"

text \<open>What the stand-in service answers on its first two calls, and the texts read off.\<close>

definition demo_responses :: "response list" where
  "demo_responses =
     [\<lparr>text_annotations =
         [\<lparr>description = [0x645, 0x631, 0x62D, 0x628, 0x627]\<rparr>,
          \<lparr>description = [0x645, 0x631]\<rparr>]\<rparr>,
      \<lparr>text_annotations = []\<rparr>]"

definition demo_texts :: "ustr list" where
  "demo_texts = [[0x645, 0x631, 0x62D, 0x628, 0x627], []]"

section \<open>Sequencing\<close>

lemma bind_io_InrE:
  assumes "bind_io m f = (Inr y, evs)"
  obtains x e1 e2 where "m = (Inr x, e1)" "f x = (Inr y, e2)" "evs = e1 @ e2"
  using assms by (auto simp: bind_io_def split: prod.splits sum.splits)

lemma bind_io_Inr [simp]: "bind_io (Inr x, e1) f = (fst (f x), e1 @ snd (f x))"
  by (simp add: bind_io_def split: prod.splits)

lemma bind_io_Inl [simp]: "bind_io (Inl e, e1) f = (Inl e, e1)"
  by (simp add: bind_io_def)

section \<open>Reading a run, event by event\<close>

lemma ocr_calls_simps [simp]:
  "ocr_calls [] = []"
  "ocr_calls (ev # evs) = ocr_call ev @ ocr_calls evs"
  "ocr_calls (xs @ ys) = ocr_calls xs @ ocr_calls ys"
  by (simp_all add: ocr_calls_def)

lemma ocr_requests_simps [simp]:
  "ocr_requests [] = []"
  "ocr_requests (ev # evs) = map fst (ocr_call ev) @ ocr_requests evs"
  "ocr_requests (xs @ ys) = ocr_requests xs @ ocr_requests ys"
  by (simp_all add: ocr_requests_def)

lemma ocr_contexts_simps [simp]:
  "ocr_contexts [] = []"
  "ocr_contexts (ev # evs) = map (\<lambda>c. fst (snd c)) (ocr_call ev) @ ocr_contexts evs"
  "ocr_contexts (xs @ ys) = ocr_contexts xs @ ocr_contexts ys"
  by (simp_all add: ocr_contexts_def)

lemma ocr_answers_simps [simp]:
  "ocr_answers [] = []"
  "ocr_answers (ev # evs) = map (\<lambda>c. snd (snd c)) (ocr_call ev) @ ocr_answers evs"
  "ocr_answers (xs @ ys) = ocr_answers xs @ ocr_answers ys"
  by (simp_all add: ocr_answers_def)

lemma ocr_responses_simps [simp]:
  "ocr_responses [] = []"
  "ocr_responses (ev # evs) =
     concat (map (\<lambda>c. answered (snd (snd c))) (ocr_call ev)) @ ocr_responses evs"
  "ocr_responses (xs @ ys) = ocr_responses xs @ ocr_responses ys"
  by (simp_all add: ocr_responses_def ocr_answers_def map_concat comp_def)

lemma progress_reports_simps [simp]:
  "progress_reports [] = []"
  "progress_reports (ev # evs) = progress_report ev @ progress_reports evs"
  "progress_reports (xs @ ys) = progress_reports xs @ progress_reports ys"
  by (simp_all add: progress_reports_def)

lemma downloads_simps [simp]:
  "downloads [] = []"
  "downloads (ev # evs) = (if is_download ev then ev # downloads evs else downloads evs)"
  "downloads (xs @ ys) = downloads xs @ downloads ys"
  by (simp_all add: downloads_def)

lemma downloaded_simps [simp]:
  "downloaded [] = []"
  "downloaded (ev # evs) = download_data ev @ downloaded evs"
  "downloaded (xs @ ys) = downloaded xs @ downloaded ys"
  by (simp_all add: downloaded_def)

lemma steps_simps [simp]:
  "steps [] = []"
  "steps (ev # evs) = step_of ev @ steps evs"
  "steps (xs @ ys) = steps xs @ steps ys"
  by (simp_all add: steps_def)

lemma shown_simps [simp]:
  "shown [] = []"
  "shown (ev # evs) = shown_by ev @ shown evs"
  "shown (xs @ ys) = shown xs @ shown ys"
  by (simp_all add: shown_def)

lemma json_parses_simps [simp]:
  "json_parses [] = []"
  "json_parses (ev # evs) = json_parse ev @ json_parses evs"
  "json_parses (xs @ ys) = json_parses xs @ json_parses ys"
  by (simp_all add: json_parses_def)

lemma pdf_opens_simps [simp]:
  "pdf_opens [] = []"
  "pdf_opens (ev # evs) = pdf_open ev @ pdf_opens evs"
  "pdf_opens (xs @ ys) = pdf_opens xs @ pdf_opens ys"
  by (simp_all add: pdf_opens_def)

lemma page_loads_simps [simp]:
  "page_loads [] = []"
  "page_loads (ev # evs) = page_load ev @ page_loads evs"
  "page_loads (xs @ ys) = page_loads xs @ page_loads ys"
  by (simp_all add: page_loads_def)

lemma paragraph_adds_simps [simp]:
  "paragraph_adds [] = []"
  "paragraph_adds (ev # evs) = paragraph_add ev @ paragraph_adds evs"
  "paragraph_adds (xs @ ys) = paragraph_adds xs @ paragraph_adds ys"
  by (simp_all add: paragraph_adds_def)

lemma call_kinds_simps [simp]:
  "call_kinds [] = []"
  "call_kinds (ev # evs) = kind_of ev @ call_kinds evs"
  "call_kinds (xs @ ys) = call_kinds xs @ call_kinds ys"
  by (simp_all add: call_kinds_def)

lemma downloaded_downloads: "downloaded (downloads evs) = downloaded evs"
proof (induction evs)
  case Nil
  show ?case by simp
next
  case (Cons ev evs)
  then show ?case by (cases ev) simp_all
qed

section \<open>Division and the decimal numeral\<close>

lemma nbits_le: "m \<le> n \<Longrightarrow> nbits m \<le> nbits n"
proof (induction n arbitrary: m rule: nbits.induct)
  case (1 n)
  show ?case
  proof (cases "m = 0")
    case True
    then show ?thesis by (simp add: nbits.simps [of 0])
  next
    case False
    with 1(2) have n: "n \<noteq> 0" by simp
    from 1(2) have "m div 2 \<le> n div 2" by (rule div_le_mono)
    with 1(1) [OF n] have "nbits (m div 2) \<le> nbits (n div 2)" by simp
    with False n show ?thesis by (simp add: nbits.simps [of m] nbits.simps [of n])
  qed
qed

lemma nbits_lower: "0 < n \<Longrightarrow> 2 ^ (nbits n - 1) \<le> n"
proof (induction n rule: nbits.induct)
  case (1 n)
  show ?case
  proof (cases "n div 2 = 0")
    case True
    with 1 show ?thesis by (simp add: nbits.simps [of n] nbits.simps [of 0])
  next
    case False
    with 1 have "2 ^ (nbits (n div 2) - 1) \<le> n div 2" by simp
    moreover from False have "0 < nbits (n div 2)" by (simp add: nbits.simps [of "n div 2"])
    ultimately have "2 ^ nbits (n div 2) \<le> 2 * (n div 2)"
      by (cases "nbits (n div 2)") simp_all
    also have "\<dots> \<le> n" by simp
    finally show ?thesis using 1 by (simp add: nbits.simps [of n])
  qed
qed

lemma nbits_upper: "n < 2 ^ nbits n"
proof (induction n rule: nbits.induct)
  case (1 n)
  show ?case
  proof (cases "n = 0")
    case True
    then show ?thesis by simp
  next
    case False
    with 1 have "n div 2 < 2 ^ nbits (n div 2)" by simp
    then have "n < 2 * 2 ^ nbits (n div 2)" by linarith
    with False show ?thesis by (simp add: nbits.simps [of n])
  qed
qed

lemma round_div_bounds:
  assumes "0 < d"
  shows "n div d \<le> round_div n d" "round_div n d \<le> n div d + 1"
    "d dvd n \<Longrightarrow> round_div n d = n div d"
  using assms by (auto simp: round_div_def Let_def)

lemma round_div_le:
  assumes "0 < d" and "n \<le> m * d"
  shows "round_div n d \<le> m"
proof (cases "n = m * d")
  case True
  with assms show ?thesis by (simp add: round_div_bounds(3))
next
  case False
  with assms have "n < d * m" by (simp add: mult.commute)
  moreover from assms(1) have "0 \<le> n mod d" by simp
  moreover have "d * (n div d) + n mod d = n" by simp
  ultimately have "d * (n div d) < d * m" by linarith
  with assms(1) have "n div d < m" by (simp add: mult_less_cancel_left_pos)
  with round_div_bounds(2) [OF assms(1), of n] show ?thesis by simp
qed

lemma nearest_double_same:
  assumes "0 < n"
  shows "nearest_double n n = 1"
proof -
  have "pow2_le 0 n n" by (simp add: pow2_le_def)
  then have "nearest_double n n =
      of_int (round_div (int n * 2 ^ 52) (int n)) / 2 ^ 52"
    by (simp add: nearest_double_def Let_def)
  moreover from assms have "round_div (int n * 2 ^ 52) (int n) = 2 ^ 52"
    by (simp add: round_div_bounds(3))
  ultimately show ?thesis by simp
qed

lemma nearest_double_unit:
  assumes "0 < a" and "a \<le> b"
  shows "0 \<le> nearest_double a b" "nearest_double a b \<le> 1"
proof -
  define e0 where "e0 = int (nbits a) - int (nbits b)"
  define e where "e = (if pow2_le e0 a b then e0 else e0 - 1)"
  define j where "j = nat (52 - max e (- 1022))"
  from assms have b: "0 < b" by simp
  from nbits_le [OF assms(2)] have "e0 \<le> 0" by (simp add: e0_def)
  then have "e \<le> 0" by (simp add: e_def)
  then have k: "\<not> 0 \<le> max e (- 1022) - 52" "nat (- (max e (- 1022) - 52)) = j"
    by (simp_all add: j_def)
  have nd: "nearest_double a b = of_int (round_div (int a * 2 ^ j) (int b)) / 2 ^ j"
    unfolding nearest_double_def Let_def e0_def [symmetric] e_def [symmetric]
    using k by simp
  from b have "0 \<le> (int a * 2 ^ j) div int b" by (simp add: pos_imp_zdiv_nonneg_iff)
  with round_div_bounds(1) [of "int b" "int a * 2 ^ j"] b
  have "0 \<le> round_div (int a * 2 ^ j) (int b)" by simp
  then show "0 \<le> nearest_double a b" by (simp add: nd)
  from assms(2) have "int a * 2 ^ j \<le> 2 ^ j * int b" by simp
  with b have "round_div (int a * 2 ^ j) (int b) \<le> 2 ^ j"
    by (intro round_div_le) simp_all
  then have "(of_int (round_div (int a * 2 ^ j) (int b)) :: rat) \<le> 2 ^ j"
    by (metis of_int_le_iff of_int_numeral of_int_power)
  then show "nearest_double a b \<le> 1" by (simp add: nd divide_le_eq)
qed

lemma nbits_numerals: "nbits (Suc 0) = 1" "nbits 2 = 2" "nbits 3 = 2"
  by (simp_all add: nbits.simps)

lemma nearest_double_below_one:
  assumes "e = (if pow2_le (int (nbits a) - int (nbits b)) a b
                then int (nbits a) - int (nbits b) else int (nbits a) - int (nbits b) - 1)"
    and "e \<le> 0" and "- 1022 \<le> e" and "j = nat (52 - e)"
  shows "nearest_double a b = of_int (round_div (int a * 2 ^ j) (int b)) / 2 ^ j"
proof -
  from assms(2,3) have "max e (- 1022) = e" by simp
  moreover from assms(2) have "\<not> 0 \<le> e - 52" by simp
  moreover from assms(4) have "nat (- (e - 52)) = j" by simp
  ultimately show ?thesis
    unfolding nearest_double_def Let_def assms(1) [symmetric] by simp
qed

lemma nearest_double_1_3: "nearest_double 1 3 = 6004799503160661 / 18014398509481984"
proof -
  have "nearest_double 1 3 = of_int (round_div (int 1 * 2 ^ 54) (int 3)) / 2 ^ 54"
    by (rule nearest_double_below_one [where e = "- 2"])
       (simp_all add: nbits_numerals pow2_le_def)
  also have "round_div (int 1 * 2 ^ 54) (int 3) = 6004799503160661"
    by (simp add: round_div_def Let_def)
  finally show ?thesis by simp
qed

lemma nearest_double_2_3: "nearest_double 2 3 = 6004799503160661 / 9007199254740992"
proof -
  have "nearest_double 2 3 = of_int (round_div (int 2 * 2 ^ 53) (int 3)) / 2 ^ 53"
    by (rule nearest_double_below_one [where e = "- 1"])
       (simp_all add: nbits_numerals pow2_le_def)
  also have "round_div (int 2 * 2 ^ 53) (int 3) = 6004799503160661"
    by (simp add: round_div_def Let_def)
  finally show ?thesis by simp
qed

lemma nearest_double_1_2: "nearest_double 1 2 = 1 / 2"
proof -
  have "nearest_double 1 2 = of_int (round_div (int 1 * 2 ^ 53) (int 2)) / 2 ^ 53"
    by (rule nearest_double_below_one [where e = "- 1"])
       (simp_all add: nbits_numerals pow2_le_def)
  also have "round_div (int 1 * 2 ^ 53) (int 2) = 2 ^ 52"
    by (simp add: round_div_def Let_def)
  finally show ?thesis by simp
qed

lemma round_div_half:
  assumes "0 < d"
  shows "\<bar>of_int (round_div n d) - (of_int n / of_int d :: rat)\<bar> \<le> 1 / 2"
proof -
  define f where "f = n div d"
  define r where "r = n mod d"
  from assms have r: "0 \<le> r" "r < d" by (simp_all add: r_def)
  have "n = d * f + r" by (simp add: f_def r_def)
  then have "(of_int n :: rat) = of_int d * of_int f + of_int r" by simp
  with assms have q: "(of_int n / of_int d :: rat) = of_int f + of_int r / of_int d"
    by (simp add: field_simps)
  from assms have dpos: "(0 :: rat) < of_int d" by simp
  consider "2 * r < d" | "d < 2 * r" | "2 * r = d" by linarith
  then show ?thesis
  proof cases
    case 1
    then have "round_div n d = f" by (simp add: round_div_def Let_def f_def r_def)
    moreover from 1 have "(2 :: rat) * of_int r \<le> of_int d"
      by (metis less_imp_le of_int_le_iff of_int_mult of_int_numeral)
    then have "(of_int r / of_int d :: rat) \<le> 1 / 2" using dpos by (simp add: field_simps)
    moreover from r(1) dpos have "(0 :: rat) \<le> of_int r / of_int d" by simp
    ultimately show ?thesis by (simp add: q)
  next
    case 2
    then have "round_div n d = f + 1" by (simp add: round_div_def Let_def f_def r_def)
    moreover from 2 have "(of_int d :: rat) \<le> 2 * of_int r"
      by (metis less_imp_le of_int_le_iff of_int_mult of_int_numeral)
    then have "(1 / 2 :: rat) \<le> of_int r / of_int d" using dpos by (simp add: field_simps)
    moreover from r(2) have "(of_int r :: rat) \<le> of_int d" by simp
    then have "(of_int r / of_int d :: rat) \<le> 1" using dpos by (simp add: field_simps)
    ultimately show ?thesis by (simp add: q)
  next
    case 3
    then have "(of_int d :: rat) = 2 * of_int r"
      by (metis of_int_mult of_int_numeral)
    with dpos have h: "(of_int r / of_int d :: rat) = 1 / 2" by (simp add: field_simps)
    have "round_div n d = f \<or> round_div n d = f + 1"
      by (simp add: round_div_def Let_def f_def r_def)
    then show ?thesis by (auto simp: q h)
  qed
qed

lemma nearest_double_error:
  assumes "0 < a" and "a \<le> b"
  shows "\<bar>nearest_double a b - of_nat a / of_nat b\<bar> \<le> 1 / 2 ^ 53"
proof -
  define e0 where "e0 = int (nbits a) - int (nbits b)"
  define e where "e = (if pow2_le e0 a b then e0 else e0 - 1)"
  define j where "j = nat (52 - max e (- 1022))"
  from assms have b: "0 < b" by simp
  from nbits_le [OF assms(2)] have "e0 \<le> 0" by (simp add: e0_def)
  then have e: "e \<le> 0" by (simp add: e_def)
  then have k: "\<not> 0 \<le> max e (- 1022) - 52" "nat (- (max e (- 1022) - 52)) = j"
    by (simp_all add: j_def)
  have nd: "nearest_double a b = of_int (round_div (int a * 2 ^ j) (int b)) / 2 ^ j"
    unfolding nearest_double_def Let_def e0_def [symmetric] e_def [symmetric]
    using k by simp
  from e have "52 \<le> j" by (simp add: j_def)
  then have "(2 :: rat) ^ 52 \<le> 2 ^ j" by (intro power_increasing) simp_all
  then have small: "(1 / 2 :: rat) / 2 ^ j \<le> 1 / 2 ^ 53" by (simp add: field_simps)
  define R where "R = round_div (int a * 2 ^ j) (int b)"
  from b have "\<bar>of_int R - (of_int (int a * 2 ^ j) / of_int (int b) :: rat)\<bar> \<le> 1 / 2"
    unfolding R_def by (intro round_div_half) simp
  then have "\<bar>of_int R - (of_nat a * 2 ^ j / of_nat b :: rat)\<bar> \<le> 1 / 2" by simp
  then have "\<bar>of_int R - (of_nat a * 2 ^ j / of_nat b :: rat)\<bar> / 2 ^ j \<le> (1 / 2) / 2 ^ j"
    by (intro divide_right_mono) simp_all
  moreover have "\<bar>of_int R - (of_nat a * 2 ^ j / of_nat b :: rat)\<bar> / 2 ^ j =
      \<bar>of_int R / 2 ^ j - of_nat a / of_nat b\<bar>"
  proof -
    have "\<bar>of_int R - (of_nat a * 2 ^ j / of_nat b :: rat)\<bar> / 2 ^ j =
        \<bar>(of_int R - (of_nat a * 2 ^ j / of_nat b :: rat)) / 2 ^ j\<bar>"
      by simp
    also have "(of_int R - (of_nat a * 2 ^ j / of_nat b :: rat)) / 2 ^ j =
        of_int R / 2 ^ j - of_nat a / of_nat b"
      by (simp add: field_simps)
    finally show ?thesis .
  qed
  ultimately have "\<bar>of_int R / 2 ^ j - (of_nat a / of_nat b :: rat)\<bar> \<le> (1 / 2) / 2 ^ j"
    by simp
  with small show ?thesis unfolding nd R_def by linarith
qed

lemma truediv_progress:
  assumes "i < n"
  shows "truediv (int i + 1) (int n) = Inr (nearest_double (i + 1) n)"
proof -
  from assms have le: "i + 1 \<le> n" and pos: "0 < i + 1" by simp_all
  from nearest_double_unit(2) [OF pos le] have "nearest_double (i + 1) n \<le> 1" .
  moreover have "(1 :: rat) < 2 ^ 1024" by simp
  ultimately have "\<not> 2 ^ 1024 \<le> nearest_double (i + 1) n" by linarith
  moreover have "nat \<bar>int i + 1\<bar> = i + 1" "nat \<bar>int n\<bar> = n" by simp_all
  moreover from assms have "int n \<noteq> 0" "int i + 1 \<noteq> 0" "\<not> int i + 1 < 0" "\<not> int n < 0"
    by simp_all
  ultimately show ?thesis unfolding truediv_def Let_def by (simp only: if_False if_True simp_thms)
qed

lemma decimal_value_snoc: "decimal_value (ds @ [c]) = 10 * decimal_value ds + (c - 48)"
  by (simp add: decimal_value_def)

lemma decimal_value_str_nat: "decimal_value (str_nat n) = n"
proof (induction n rule: str_nat.induct)
  case (1 n)
  show ?case
  proof (cases "n < 10")
    case True
    then show ?thesis by (simp add: str_nat.simps [of n] decimal_value_def)
  next
    case False
    with 1 have "decimal_value (str_nat (n div 10)) = n div 10" by simp
    with False show ?thesis
      by (simp add: str_nat.simps [of n] decimal_value_snoc)
  qed
qed

lemma str_nat_digits: "set (str_nat n) \<subseteq> {48..57}"
proof (induction n rule: str_nat.induct)
  case (1 n)
  show ?case
  proof (cases "n < 10")
    case True
    then show ?thesis by (simp add: str_nat.simps [of n])
  next
    case False
    with 1 have "set (str_nat (n div 10)) \<subseteq> {48..57}" by simp
    moreover have "n mod 10 < 10" by simp
    ultimately show ?thesis using False by (simp add: str_nat.simps [of n])
  qed
qed

lemma str_nat_not_empty: "str_nat n \<noteq> []"
  by (simp add: str_nat.simps [of n])

lemma str_nat_no_leading_zero: "n \<noteq> 0 \<Longrightarrow> hd (str_nat n) \<noteq> 48"
proof (induction n rule: str_nat.induct)
  case (1 n)
  show ?case
  proof (cases "n < 10")
    case True
    with 1(2) show ?thesis by (simp add: str_nat.simps [of n])
  next
    case False
    then have "n div 10 \<noteq> 0" by simp
    with 1(1) False have "hd (str_nat (n div 10)) \<noteq> 48" by simp
    with False show ?thesis
      by (simp add: str_nat.simps [of n] str_nat_not_empty)
  qed
qed

lemma str_nat_small: "str_nat 0 = [48]" "str_nat 2 = [50]" "str_nat 3 = [51]"
  by (simp_all add: str_nat.simps)

section \<open>The rasterizer\<close>

lemma render_page_result: "fst (render_page env d n) = rendered env d n"
  by (simp add: render_page_def rendered_def call_def split: sum.splits)

lemma render_page_events: "\<forall>ev \<in> set (snd (render_page env d n)). step_of ev = [1]"
  by (auto simp: render_page_def bind_io_def call_def split: prod.splits sum.splits)

lemma render_page_quiet:
  "\<forall>ev \<in> set (snd (render_page env d n)).
     shown_by ev = [] \<and> json_parse ev = [] \<and> pdf_open ev = [] \<and> paragraph_add ev = []"
  by (auto simp: render_page_def bind_io_def call_def split: prod.splits sum.splits)

lemma render_page_loads: "page_loads (snd (render_page env d n)) = [n]"
  by (auto simp: render_page_def bind_io_def call_def split: prod.splits sum.splits)


lemma convert_loop_result:
  "fst (convert_loop env d ns acc) =
     (case rendered_pages env d ns of Inl e \<Rightarrow> Inl e | Inr pngs \<Rightarrow> Inr (acc @ pngs))"
proof (induction ns arbitrary: acc)
  case Nil
  show ?case by (simp add: returns_def)
next
  case (Cons n ns)
  show ?case
  proof (cases "render_page env d n")
    case (Pair r evs)
    with render_page_result [of env d n] have r: "rendered env d n = r" by simp
    show ?thesis
    proof (cases r)
      case (Inl e)
      with Pair r show ?thesis by simp
    next
      case (Inr png)
      with Pair r Cons.IH [of "acc @ [png]"] show ?thesis
        by (simp split: sum.splits)
    qed
  qed
qed

lemma rendered_pages_Inr:
  "rendered_pages env d ns = Inr pngs \<Longrightarrow>
   length pngs = length ns \<and> (\<forall>k < length ns. rendered env d (ns ! k) = Inr (pngs ! k))"
proof (induction ns arbitrary: pngs)
  case Nil
  then show ?case by simp
next
  case (Cons n ns)
  from Cons.prems obtain png rest where
    a: "rendered env d n = Inr png" and b: "rendered_pages env d ns = Inr rest" and
    c: "pngs = png # rest"
    by (auto split: sum.splits)
  from Cons.IH [OF b] have
    "length rest = length ns" "\<forall>k < length ns. rendered env d (ns ! k) = Inr (rest ! k)"
    by simp_all
  with a c show ?case by (auto simp: nth_Cons split: nat.splits)
qed

lemma convert_loop_steps:
  "\<forall>ev \<in> set (snd (convert_loop env d ns acc)). step_of ev = [1]"
proof (induction ns arbitrary: acc)
  case Nil
  show ?case by (simp add: returns_def)
next
  case (Cons n ns)
  show ?case
  proof (cases "render_page env d n")
    case (Pair r evs)
    with render_page_events [of env d n] have evs: "\<forall>ev \<in> set evs. step_of ev = [1]" by simp
    show ?thesis
    proof (cases r)
      case (Inl e)
      with Pair evs show ?thesis by simp
    next
      case (Inr png)
      with Pair evs Cons.IH [of "acc @ [png]"] show ?thesis by auto
    qed
  qed
qed

lemma convert_loop_quiet:
  "\<forall>ev \<in> set (snd (convert_loop env d ns acc)).
     shown_by ev = [] \<and> json_parse ev = [] \<and> pdf_open ev = [] \<and> paragraph_add ev = []"
proof (induction ns arbitrary: acc)
  case Nil
  show ?case by (simp add: returns_def)
next
  case (Cons n ns)
  show ?case
  proof (cases "render_page env d n")
    case (Pair r evs)
    with render_page_quiet [of env d n] have
      evs: "\<forall>ev \<in> set evs.
        shown_by ev = [] \<and> json_parse ev = [] \<and> pdf_open ev = [] \<and> paragraph_add ev = []"
      by simp
    show ?thesis
    proof (cases r)
      case (Inl e)
      with Pair evs show ?thesis by simp
    next
      case (Inr png)
      with Pair evs Cons.IH [of "acc @ [png]"] show ?thesis by auto
    qed
  qed
qed

lemma convert_loop_page_loads:
  "\<exists>k \<le> length ns. page_loads (snd (convert_loop env d ns acc)) = take k ns"
proof (induction ns arbitrary: acc)
  case Nil
  show ?case by (simp add: returns_def)
next
  case (Cons n ns)
  show ?case
  proof (cases "render_page env d n")
    case (Pair r evs)
    with render_page_loads [of env d n] have evs: "page_loads evs = [n]" by simp
    show ?thesis
    proof (cases r)
      case (Inl e)
      with Pair evs have "page_loads (snd (convert_loop env d (n # ns) acc)) = take 1 (n # ns)"
        by simp
      then show ?thesis by (intro exI [of _ 1]) simp
    next
      case (Inr png)
      from Cons.IH [of "acc @ [png]"] obtain k where
        k: "k \<le> length ns"
           "page_loads (snd (convert_loop env d ns (acc @ [png]))) = take k ns"
        by blast
      with Pair Inr evs have
        "page_loads (snd (convert_loop env d (n # ns) acc)) = take (Suc k) (n # ns)"
        by simp
      with k(1) show ?thesis by (intro exI [of _ "Suc k"]) simp
    qed
  qed
qed


lemma convert_pdf_to_images_eq:
  "convert_pdf_to_images env b =
     (case fitz_open env b of
        Inl e \<Rightarrow> (Inl e, [Call_fitz_open b])
      | Inr d \<Rightarrow>
          (case convert_loop env d [0..<doc_len env d] [] of
             (Inl e, R) \<Rightarrow> (Inl e, Call_fitz_open b # R)
           | (Inr imgs, R) \<Rightarrow> (Inr imgs, Call_fitz_open b # R @ [Call_close])))"
  by (simp add: convert_pdf_to_images_def call_def emit_def returns_def
           split: sum.splits prod.splits)

lemma convert_result: "fst (convert_pdf_to_images env b) = rasterizer_step env b"
proof (cases "fitz_open env b")
  case (Inl e)
  then show ?thesis by (simp add: convert_pdf_to_images_eq rasterizer_step_def)
next
  case (Inr d)
  obtain r R where l: "convert_loop env d [0..<doc_len env d] [] = (r, R)"
    by (cases "convert_loop env d [0..<doc_len env d] []")
  with convert_loop_result [of env d "[0..<doc_len env d]" "[]"]
  have "r = rendered_pages env d [0..<doc_len env d]"
    by (simp split: sum.splits)
  with Inr l show ?thesis
    by (simp add: convert_pdf_to_images_eq rasterizer_step_def split: sum.splits)
qed

section \<open>The OCR loop\<close>

lemma detect_text_in_image_eq:
  "detect_text_in_image env img c =
     (case text_detection env c img language_hints_ar of
        (Inl e, c') \<Rightarrow> (Inl e, [Call_text_detection img language_hints_ar (Inl e)])
      | (Inr r, c') \<Rightarrow>
          (Inr (annotation_text r, c'), [Call_text_detection img language_hints_ar (Inr r)]))"
  by (simp add: detect_text_in_image_def call_def returns_def annotation_text_def
           split: prod.splits sum.splits list.splits)

lemma ocr_loop_step:
  assumes "i < length il"
  shows "ocr_loop env c il i (img # rest) acc =
     (case text_detection env c img language_hints_ar of
        (Inl e, c') \<Rightarrow> (Inl e, [Call_text_detection img language_hints_ar (Inl e)])
      | (Inr r, c') \<Rightarrow>
          (fst (ocr_loop env c' il (i + 1) rest (acc @ [annotation_text r])),
           Call_text_detection img language_hints_ar (Inr r) #
           Progress_bar_progress (nearest_double (i + 1) (length il)) #
           snd (ocr_loop env c' il (i + 1) rest (acc @ [annotation_text r]))))"
  by (simp add: detect_text_in_image_eq truediv_progress [OF assms] lift_def emit_def
           split: prod.splits sum.splits)

lemma ocr_loop_Inr:
  "ocr_loop env c il i rest acc = (Inr texts, evs) \<Longrightarrow> i + length rest = length il \<Longrightarrow>
   \<exists>rs. length rs = length rest \<and> texts = acc @ map annotation_text rs \<and>
        evs = page_events (length il) i (zip rest rs)"
proof (induction rest arbitrary: c i acc evs)
  case Nil
  then show ?case by (simp add: returns_def)
next
  case (Cons img rest)
  from Cons.prems(2) have i: "i < length il" by simp
  obtain answer c' where t: "text_detection env c img language_hints_ar = (answer, c')"
    by (cases "text_detection env c img language_hints_ar")
  from Cons.prems(1) t obtain r where r: "answer = Inr r"
    by (cases answer) (simp_all add: ocr_loop_step [OF i] del: ocr_loop.simps)
  obtain res e3 where l0: "ocr_loop env c' il (i + 1) rest (acc @ [annotation_text r]) = (res, e3)"
    by (cases "ocr_loop env c' il (i + 1) rest (acc @ [annotation_text r])")
  from Cons.prems(1) t r l0 have
    l: "ocr_loop env c' il (i + 1) rest (acc @ [annotation_text r]) = (Inr texts, e3)" and
    evs: "evs = Call_text_detection img language_hints_ar (Inr r) #
            Progress_bar_progress (nearest_double (i + 1) (length il)) # e3"
    by (simp_all add: ocr_loop_step [OF i] del: ocr_loop.simps)
  from Cons.prems(2) have "(i + 1) + length rest = length il" by simp
  from Cons.IH [OF l this] obtain rs where
    rs: "length rs = length rest" "texts = (acc @ [annotation_text r]) @ map annotation_text rs"
        "e3 = page_events (length il) (i + 1) (zip rest rs)"
    by blast
  show ?case
    using rs evs by (intro exI [of _ "r # rs"]) simp
qed

lemma ocr_loop_Inl:
  "ocr_loop env c il i rest acc = (Inl e, evs) \<Longrightarrow> i + length rest = length il \<Longrightarrow>
   \<exists>rs. length rs < length rest \<and>
        evs = page_events (length il) i (zip rest rs) @
              [Call_text_detection (rest ! length rs) language_hints_ar (Inl e)]"
proof (induction rest arbitrary: c i acc evs)
  case Nil
  then show ?case by (simp add: returns_def)
next
  case (Cons img rest)
  from Cons.prems(2) have i: "i < length il" by simp
  obtain answer c' where t: "text_detection env c img language_hints_ar = (answer, c')"
    by (cases "text_detection env c img language_hints_ar")
  show ?case
  proof (cases answer)
    case (Inl e')
    with t Cons.prems(1) have "e' = e"
      "evs = [Call_text_detection img language_hints_ar (Inl e)]"
      by (auto simp: ocr_loop_step [OF i] simp del: ocr_loop.simps)
    then show ?thesis by (intro exI [of _ "[]"]) simp
  next
    case (Inr r)
    obtain res e3 where
      l0: "ocr_loop env c' il (i + 1) rest (acc @ [annotation_text r]) = (res, e3)"
      by (cases "ocr_loop env c' il (i + 1) rest (acc @ [annotation_text r])")
    from Cons.prems(1) t Inr l0 have
      l: "ocr_loop env c' il (i + 1) rest (acc @ [annotation_text r]) = (Inl e, e3)" and
      evs: "evs = Call_text_detection img language_hints_ar (Inr r) #
              Progress_bar_progress (nearest_double (i + 1) (length il)) # e3"
      by (simp_all add: ocr_loop_step [OF i] del: ocr_loop.simps)
    from Cons.prems(2) have "(i + 1) + length rest = length il" by simp
    from Cons.IH [OF l this] obtain rs where
      rs: "length rs < length rest"
        "e3 = page_events (length il) (i + 1) (zip rest rs) @
              [Call_text_detection (rest ! length rs) language_hints_ar (Inl e)]"
      by blast
    show ?thesis
      using rs evs by (intro exI [of _ "r # rs"]) simp
  qed
qed

lemma ocr_loop_result:
  "i + length rest = length il \<Longrightarrow>
   fst (ocr_loop env c il i rest acc) =
     (case ocr_step env c rest of Inl e \<Rightarrow> Inl e | Inr ts \<Rightarrow> Inr (acc @ ts))"
proof (induction rest arbitrary: c i acc)
  case Nil
  show ?case by (simp add: returns_def)
next
  case (Cons img rest)
  from Cons.prems have i: "i < length il" by simp
  from Cons.prems have n: "(i + 1) + length rest = length il" by simp
  obtain answer c' where t: "text_detection env c img language_hints_ar = (answer, c')"
    by (cases "text_detection env c img language_hints_ar")
  show ?case
  proof (cases answer)
    case (Inl e)
    with t show ?thesis by (simp add: ocr_loop_step [OF i] del: ocr_loop.simps)
  next
    case (Inr r)
    with t Cons.IH [OF n, of c' "acc @ [annotation_text r]"] show ?thesis
      by (simp add: ocr_loop_step [OF i] del: ocr_loop.simps split: sum.splits)
  qed
qed

lemma ocr_loop_events:
  assumes "i + length rest = length il"
  shows "\<exists>rs tail. length rs \<le> length rest \<and>
     snd (ocr_loop env c il i rest acc) = page_events (length il) i (zip rest rs) @ tail \<and>
     (case fst (ocr_loop env c il i rest acc) of
        Inr texts \<Rightarrow> tail = [] \<and> length rs = length rest \<and> texts = acc @ map annotation_text rs
      | Inl e \<Rightarrow> length rs < length rest \<and>
          tail = [Call_text_detection (rest ! length rs) language_hints_ar (Inl e)])"
proof (cases "ocr_loop env c il i rest acc")
  case (Pair res evs)
  show ?thesis
  proof (cases res)
    case (Inl e)
    with Pair have "ocr_loop env c il i rest acc = (Inl e, evs)" by simp
    from ocr_loop_Inl [OF this assms] obtain rs where
      "length rs < length rest"
      "evs = page_events (length il) i (zip rest rs) @
             [Call_text_detection (rest ! length rs) language_hints_ar (Inl e)]"
      by blast
    with Pair Inl show ?thesis
      by (intro exI [of _ rs]
            exI [of _ "[Call_text_detection (rest ! length rs) language_hints_ar (Inl e)]"])
         simp
  next
    case (Inr texts)
    with Pair have "ocr_loop env c il i rest acc = (Inr texts, evs)" by simp
    from ocr_loop_Inr [OF this assms] obtain rs where
      "length rs = length rest" "texts = acc @ map annotation_text rs"
      "evs = page_events (length il) i (zip rest rs)"
      by blast
    with Pair Inr show ?thesis
      by (intro exI [of _ rs] exI [of _ "[]"]) simp
  qed
qed

lemma page_events_calls:
  "ocr_requests (page_events n i z) = map fst z"
  "ocr_contexts (page_events n i z) = replicate (length z) language_hints_ar"
  "ocr_answers (page_events n i z) = map (\<lambda>p. Inr (snd p)) z"
  "ocr_responses (page_events n i z) = map snd z"
  by (induction n i z rule: page_events.induct) simp_all

lemma page_events_silent:
  "shown (page_events n i z) = []"
  "json_parses (page_events n i z) = []"
  "pdf_opens (page_events n i z) = []"
  "page_loads (page_events n i z) = []"
  "paragraph_adds (page_events n i z) = []"
  "downloads (page_events n i z) = []"
  by (induction n i z rule: page_events.induct) simp_all

lemma page_events_steps: "steps (page_events n i z) = replicate (2 * length z) 2"
  by (induction n i z rule: page_events.induct) simp_all

lemma page_events_kinds: "call_kinds (page_events n i z) = replicate (length z) K_text_detection"
  by (induction n i z rule: page_events.induct) simp_all

lemma length_page_events: "length (page_events n i z) = 2 * length z"
  by (induction n i z rule: page_events.induct) simp_all

lemma progress_reports_page_events:
  "progress_reports (page_events n i z) =
     map (\<lambda>k. nearest_double (k + 1) n) [i..<i + length z]"
proof (induction n i z rule: page_events.induct)
  case (1 n i)
  show ?case by simp
next
  case (2 n i img r rest)
  have "[i..<i + length ((img, r) # rest)] = i # [i + 1..<(i + 1) + length rest]"
    by (subst upt_conv_Cons) simp_all
  with 2 show ?case by simp
qed

section \<open>The two output documents\<close>

lemma join_Cons: "join sep (t # ts) = t @ concat (map (\<lambda>u. sep @ u) ts)"
  by (induction ts arbitrary: t) simp_all

lemma join_snoc: "join sep (ts @ [t]) = concat (map (\<lambda>u. u @ sep) ts) @ t"
proof (induction ts)
  case Nil
  show ?case by simp
next
  case (Cons u ts)
  then show ?case by (cases ts) simp_all
qed

lemma length_join:
  "ts \<noteq> [] \<Longrightarrow> length (join sep ts) = sum_list (map length ts) + (length ts - 1) * length sep"
  by (induction sep ts rule: join.induct) simp_all

lemma length_page_break_sep: "length page_break_sep = 22"
  by (simp add: page_break_sep_def ascii_def)

lemma aligned_paragraph:
  "set_alignment (d @ [Paragraph (Text t) None]) (length d) a = d @ [Paragraph (Text t) (Some a)]"
  by (simp add: set_alignment_def)

lemma doc_loop_step:
  "doc_loop env full i (t # rest) d =
     (case docx_text_error env t of
        Some e \<Rightarrow> (Inl e, [Call_add_paragraph t])
      | None \<Rightarrow>
          if int i < int (length full) - 1 then
            (fst (doc_loop env full (i + 1) rest
                    (d @ [Paragraph (Text t) (Some RIGHT), Paragraph Page_break None])),
             Call_add_paragraph t # Call_add_page_break #
             snd (doc_loop env full (i + 1) rest
                    (d @ [Paragraph (Text t) (Some RIGHT), Paragraph Page_break None])))
          else
            (fst (doc_loop env full (i + 1) rest (d @ [Paragraph (Text t) (Some RIGHT)])),
             Call_add_paragraph t #
             snd (doc_loop env full (i + 1) rest (d @ [Paragraph (Text t) (Some RIGHT)]))))"
  by (simp add: add_paragraph_def call_def returns_def aligned_paragraph add_page_break_def
           split: option.splits)

lemma doc_loop_accepted:
  "i + length rest = length full \<Longrightarrow> \<forall>t \<in> set rest. docx_text_error env t = None \<Longrightarrow>
   doc_loop env full i rest d = (Inr (d @ doc_body rest), doc_events rest)"
proof (induction rest arbitrary: i d)
  case Nil
  show ?case by (simp add: returns_def)
next
  case (Cons t rest)
  from Cons.prems have next_i: "(i + 1) + length rest = length full"
    and ok: "docx_text_error env t = None" "\<forall>t \<in> set rest. docx_text_error env t = None"
    by simp_all
  note IH = Cons.IH [OF next_i ok(2)]
  show ?case
  proof (cases rest)
    case Nil
    with Cons.prems(1) have "\<not> int i < int (length full) - 1" by simp
    with ok(1) Nil show ?thesis
      by (simp del: doc_loop.simps add: doc_loop_step doc_loop.simps(1) returns_def)
  next
    case (Cons u us)
    with Cons.prems(1) have "int i < int (length full) - 1" by simp
    with ok(1) IH Cons show ?thesis
      by (simp add: doc_loop_step del: doc_loop.simps)
  qed
qed

lemma doc_loop_refused:
  "i + length rest = length full \<Longrightarrow> k < length rest \<Longrightarrow>
   docx_text_error env (rest ! k) = Some e \<Longrightarrow>
   \<forall>j < k. docx_text_error env (rest ! j) = None \<Longrightarrow>
   doc_loop env full i rest d =
     (Inl e, concat (map (\<lambda>t. [Call_add_paragraph t, Call_add_page_break]) (take k rest)) @
             [Call_add_paragraph (rest ! k)])"
proof (induction rest arbitrary: i d k)
  case Nil
  then show ?case by simp
next
  case (Cons t rest)
  show ?case
  proof (cases k)
    case 0
    with Cons.prems(3) show ?thesis
      by (simp add: doc_loop_step del: doc_loop.simps)
  next
    case (Suc k')
    from Cons.prems(1) have next_i: "(i + 1) + length rest = length full" by simp
    from Cons.prems(2) Suc have k': "k' < length rest" by simp
    from Cons.prems(3) Suc have e: "docx_text_error env (rest ! k') = Some e" by simp
    from Cons.prems(4) Suc have ok: "docx_text_error env t = None"
      and before: "\<forall>j < k'. docx_text_error env (rest ! j) = None"
      by auto
    from Cons.prems(1) k' have more: "int i < int (length full) - 1" by simp
    note IH = Cons.IH [OF next_i k' e before]
    from ok more IH Suc show ?thesis
      by (simp add: doc_loop_step del: doc_loop.simps)
  qed
qed

lemma first_refused:
  assumes "\<not> (\<forall>t \<in> set ts. docx_text_error env t = None)"
  obtains k e where "k < length ts" "docx_text_error env (ts ! k) = Some e"
    "\<forall>j < k. docx_text_error env (ts ! j) = None"
proof -
  define P where "P = (\<lambda>k. k < length ts \<and> docx_text_error env (ts ! k) \<noteq> None)"
  from assms obtain t where "t \<in> set ts" "docx_text_error env t \<noteq> None" by blast
  then obtain k0 where "k0 < length ts" "docx_text_error env (ts ! k0) \<noteq> None"
    by (auto simp: in_set_conv_nth)
  then have "P k0" by (simp add: P_def)
  define k where "k = (LEAST k. P k)"
  from \<open>P k0\<close> have "P k" unfolding k_def by (rule LeastI)
  have "\<not> P j" if "j < k" for j using that unfolding k_def by (rule not_less_Least)
  with \<open>P k\<close> have "\<forall>j < k. docx_text_error env (ts ! j) = None" by (auto simp: P_def)
  moreover from \<open>P k\<close> obtain e where "docx_text_error env (ts ! k) = Some e"
    by (auto simp: P_def)
  moreover from \<open>P k\<close> have "k < length ts" by (simp add: P_def)
  ultimately show thesis using that by blast
qed

lemma build_doc_cases:
  obtains (Built) "\<forall>t \<in> set texts. docx_text_error env t = None"
      "build_doc env texts = (Inr (doc_body texts), doc_events texts)"
  | (Refused) k e where "k < length texts" "docx_text_error env (texts ! k) = Some e"
      "\<forall>j < k. docx_text_error env (texts ! j) = None"
      "build_doc env texts =
         (Inl e, concat (map (\<lambda>t. [Call_add_paragraph t, Call_add_page_break]) (take k texts)) @
                 [Call_add_paragraph (texts ! k)])"
proof (cases "\<forall>t \<in> set texts. docx_text_error env t = None")
  case True
  then have "build_doc env texts = (Inr (doc_body texts), doc_events texts)"
    unfolding build_doc_def by (subst doc_loop_accepted) simp_all
  with True show thesis by (rule Built)
next
  case False
  then obtain k e where k: "k < length texts" "docx_text_error env (texts ! k) = Some e"
    "\<forall>j < k. docx_text_error env (texts ! j) = None"
    by (rule first_refused)
  then have "build_doc env texts =
      (Inl e, concat (map (\<lambda>t. [Call_add_paragraph t, Call_add_page_break]) (take k texts)) @
              [Call_add_paragraph (texts ! k)])"
    unfolding build_doc_def by (intro doc_loop_refused) simp_all
  with k show thesis by (rule Refused)
qed

lemma doc_body_snoc:
  "doc_body (ts @ [t]) =
     concat (map (\<lambda>u. [Paragraph (Text u) (Some RIGHT), Paragraph Page_break None]) ts) @
     [Paragraph (Text t) (Some RIGHT)]"
proof (induction ts)
  case Nil
  show ?case by simp
next
  case (Cons u ts)
  then show ?case by (cases ts) simp_all
qed

lemma text_paragraphs_doc_body:
  "text_paragraphs (doc_body ts) = map (\<lambda>t. (t, Some RIGHT)) ts"
  by (induction ts rule: doc_body.induct) (simp_all add: text_paragraphs_def)

lemma page_breaks_doc_body: "page_breaks (doc_body ts) = length ts - 1"
  by (induction ts rule: doc_body.induct) (simp_all add: page_breaks_def)

lemma length_doc_body: "length (doc_body ts) = 2 * length ts - 1"
  by (induction ts rule: doc_body.induct) simp_all

lemma length_paragraphs: "length (paragraphs d) = length d"
  by (simp add: paragraphs_def)

lemma doc_events_readers:
  "steps (doc_events ts) = replicate (length (doc_events ts)) 3"
  "call_kinds (doc_events ts) = paragraph_calls (length ts)"
  "paragraph_adds (doc_events ts) = ts"
  "shown (doc_events ts) = []" "downloads (doc_events ts) = []"
  "json_parses (doc_events ts) = []" "pdf_opens (doc_events ts) = []"
  "page_loads (doc_events ts) = []" "ocr_calls (doc_events ts) = []"
  "progress_reports (doc_events ts) = []"
  by (induction ts rule: doc_events.induct) simp_all

lemma refused_events_readers:
  fixes ts :: "ustr list"
  defines "evs \<equiv> concat (map (\<lambda>t. [Call_add_paragraph t, Call_add_page_break]) ts)"
  shows "steps evs = replicate (length evs) 3"
    "call_kinds evs = concat (replicate (length ts) [K_add_paragraph, K_add_page_break])"
    "paragraph_adds evs = ts"
    "shown evs = []" "downloads evs = []"
    "json_parses evs = []" "pdf_opens evs = []"
    "page_loads evs = []" "ocr_calls evs = []"
    "progress_reports evs = []"
  unfolding evs_def by (induction ts) simp_all

lemma paragraph_calls_prefix:
  "k < n \<Longrightarrow>
   prefix (concat (replicate k [K_add_paragraph, K_add_page_break]) @ [K_add_paragraph])
     (paragraph_calls n)"
proof (induction k arbitrary: n)
  case 0
  then obtain m where "n = Suc m" by (cases n) simp_all
  then show ?case by (cases m) simp_all
next
  case (Suc k)
  then obtain m where n: "n = Suc (Suc m)" "k < Suc m"
    by (cases n; cases "n - 1") simp_all
  from Suc.IH [OF n(2)] n(1) show ?case by simp
qed

section \<open>The run, step by step\<close>

lemma processing_eq:
  "processing env f c =
     (case convert_pdf_to_images env (getvalue f) of
        (Inl e, ce) \<Rightarrow> (Inl e, St_info msg_step1 # ce)
      | (Inr imgs, ce) \<Rightarrow>
          (case ocr_loop env c imgs 0 imgs [] of
             (Inl e, oe) \<Rightarrow>
               (Inl e, St_info msg_step1 # ce @
                  [St_info (msg_step2 (length imgs)), St_progress 0] @ oe)
           | (Inr texts, oe) \<Rightarrow>
               (case build_doc env texts of
                  (Inl e, de) \<Rightarrow>
                    (Inl e, St_info msg_step1 # ce @
                       [St_info (msg_step2 (length imgs)), St_progress 0] @ oe @
                       St_info msg_step3 # de)
                | (Inr d, de) \<Rightarrow>
                    (case docx_save env d of
                       Inl e \<Rightarrow>
                         (Inl e, St_info msg_step1 # ce @
                            [St_info (msg_step2 (length imgs)), St_progress 0] @ oe @
                            St_info msg_step3 # de @ [Call_docx_save])
                     | Inr buffer \<Rightarrow>
                         (Inr \<lparr>image_list = imgs, full_text = texts,
                               base_filename = fst (splitext env (name f)),
                               txt_output = make_txt_output texts, doc = d,
                               doc_byte_arr = buffer\<rparr>,
                          St_info msg_step1 # ce @
                            [St_info (msg_step2 (length imgs)), St_progress 0] @ oe @
                            St_info msg_step3 # de @ [Call_docx_save])))))"
  by (simp add: processing_def call_def emit_def returns_def Let_def
           split: sum.splits prod.splits)

lemma try_body_eq:
  "try_body env f key =
     (case json_loads env key of
        Inl e \<Rightarrow> (Inl e, [Call_json_loads key])
      | Inr info \<Rightarrow>
     (case from_service_account_info env info of
        Inl e \<Rightarrow> (Inl e, [Call_json_loads key, Call_from_service_account_info])
      | Inr cred \<Rightarrow>
     (case ImageAnnotatorClient env cred of
        Inl e \<Rightarrow>
          (Inl e, [Call_json_loads key, Call_from_service_account_info,
                   Call_ImageAnnotatorClient])
      | Inr client \<Rightarrow>
     (case processing env f client of
        (Inl e, pe) \<Rightarrow>
          (Inl e, [Call_json_loads key, Call_from_service_account_info,
                   Call_ImageAnnotatorClient, St_spinner_enter msg_processing] @ pe @
                  [St_spinner_exit])
      | (Inr r, pe) \<Rightarrow>
     (case encode_utf8 (txt_output r) of
        Inl e \<Rightarrow>
          (Inl e, [Call_json_loads key, Call_from_service_account_info,
                   Call_ImageAnnotatorClient, St_spinner_enter msg_processing] @ pe @
                  [St_spinner_exit, St_success msg_success])
      | Inr data \<Rightarrow>
          (Inr r, [Call_json_loads key, Call_from_service_account_info,
                   Call_ImageAnnotatorClient, St_spinner_enter msg_processing] @ pe @
                  [St_spinner_exit, St_success msg_success,
                   St_download_button label_txt data
                     (base_filename r @ ascii ''_OCR.txt'') mime_txt,
                   St_download_button label_docx (doc_byte_arr r)
                     (base_filename r @ ascii ''_OCR.docx'') mime_docx]))))))"
  by (simp add: try_body_def call_def emit_def returns_def lift_def with_spinner_def
           split: sum.splits prod.splits)

text \<open>The outcome of the run, by what the libraries answer.\<close>

lemma processing_result:
  "fst (processing env f c) =
     (case rasterizer_step env (getvalue f) of
        Inl e \<Rightarrow> Inl e
      | Inr imgs \<Rightarrow>
          (case ocr_step env c imgs of
             Inl e \<Rightarrow> Inl e
           | Inr texts \<Rightarrow>
               (case fst (build_doc env texts) of
                  Inl e \<Rightarrow> Inl e
                | Inr d \<Rightarrow>
                    (case docx_save env d of
                       Inl e \<Rightarrow> Inl e
                     | Inr buffer \<Rightarrow>
                         Inr \<lparr>image_list = imgs, full_text = texts,
                              base_filename = fst (splitext env (name f)),
                              txt_output = make_txt_output texts, doc = d,
                              doc_byte_arr = buffer\<rparr>))))"
proof -
  obtain cr ce where c: "convert_pdf_to_images env (getvalue f) = (cr, ce)"
    by (cases "convert_pdf_to_images env (getvalue f)")
  with convert_result [of env "getvalue f"] have r: "rasterizer_step env (getvalue f) = cr"
    by simp
  show ?thesis
  proof (cases cr)
    case (Inl e)
    with c r show ?thesis by (simp add: processing_eq)
  next
    case (Inr imgs)
    obtain orr oe where o: "ocr_loop env c imgs 0 imgs [] = (orr, oe)"
      by (cases "ocr_loop env c imgs 0 imgs []")
    have "0 + length imgs = length imgs" by simp
    from ocr_loop_result [OF this, of env c "[]"] o
    have s: "ocr_step env c imgs = orr" by (simp split: sum.splits)
    show ?thesis
    proof (cases orr)
      case (Inl e)
      with c r Inr o s show ?thesis by (simp add: processing_eq del: ocr_loop.simps)
    next
      case (Inr texts)
      obtain br de where b: "build_doc env texts = (br, de)"
        by (cases "build_doc env texts")
      from c r \<open>cr = Inr imgs\<close> o s Inr b show ?thesis
        by (cases br; cases "docx_save env (projr br)")
           (simp_all add: processing_eq del: ocr_loop.simps)
    qed
  qed
qed

lemma try_body_result:
  "fst (try_body env f key) =
     (case credentials_step env key of
        Inl e \<Rightarrow> Inl e
      | Inr client \<Rightarrow>
          (case fst (processing env f client) of
             Inl e \<Rightarrow> Inl e
           | Inr r \<Rightarrow>
               (case encode_utf8 (txt_output r) of Inl e \<Rightarrow> Inl e | Inr data \<Rightarrow> Inr r)))"
  by (simp add: try_body_eq credentials_step_def split: sum.splits prod.splits)


text \<open>What the events of the parts are, whatever the outcome.\<close>

lemma step1_readers:
  assumes "\<forall>ev \<in> set evs. step_of ev = [1]"
  shows "steps evs = replicate (length evs) 1" "downloads evs = []" "progress_reports evs = []"
    "ocr_calls evs = []"
  using assms
proof (induction evs)
  case Nil
  {
    case 1 show ?case by simp
  next
    case 2 show ?case by simp
  next
    case 3 show ?case by simp
  next
    case 4 show ?case by simp
  }
next
  case (Cons ev evs)
  {
    case 1 with Cons.IH(1) show ?case by simp
  next
    case 2 with Cons.IH(2) show ?case by (cases ev) simp_all
  next
    case 3 with Cons.IH(3) show ?case by (cases ev) simp_all
  next
    case 4 with Cons.IH(4) show ?case by (cases ev) simp_all
  }
qed

lemma ocr_calls_none:
  assumes "ocr_calls evs = []"
  shows "ocr_requests evs = []" "ocr_contexts evs = []" "ocr_answers evs = []"
    "ocr_responses evs = []"
  using assms
  by (simp_all add: ocr_requests_def ocr_contexts_def ocr_answers_def ocr_responses_def)

lemma quiet_readers:
  assumes "\<forall>ev \<in> set evs.
    shown_by ev = [] \<and> json_parse ev = [] \<and> pdf_open ev = [] \<and> paragraph_add ev = []"
  shows "shown evs = []" "json_parses evs = []" "pdf_opens evs = []" "paragraph_adds evs = []"
  using assms by (induction evs) simp_all

lemma convert_facts:
  assumes "convert_pdf_to_images env b = (res, ce)"
  shows "downloads ce = []" "shown ce = []" "steps ce = replicate (length ce) 1"
    "ocr_requests ce = []" "ocr_contexts ce = []" "ocr_answers ce = []"
    "ocr_responses ce = []" "progress_reports ce = []"
    "json_parses ce = []" "pdf_opens ce = [b]" "\<exists>k. page_loads ce = [0..<k]"
    "paragraph_adds ce = []"
proof -
  have "\<exists>R tail. ce = Call_fitz_open b # R @ tail \<and> (tail = [] \<or> tail = [Call_close]) \<and>
      (\<forall>ev \<in> set R. step_of ev = [1]) \<and>
      (\<forall>ev \<in> set R.
         shown_by ev = [] \<and> json_parse ev = [] \<and> pdf_open ev = [] \<and> paragraph_add ev = []) \<and>
      (\<exists>k. page_loads R = [0..<k])"
  proof (cases "fitz_open env b")
    case (Inl e)
    with assms have "ce = Call_fitz_open b # [] @ []"
      by (simp add: convert_pdf_to_images_eq)
    moreover have "\<exists>k. page_loads [] = [0..<k]" by (intro exI [of _ 0]) simp
    ultimately show ?thesis by (intro exI [of _ "[]"]) simp
  next
    case (Inr d)
    define R where "R = snd (convert_loop env d [0..<doc_len env d] [])"
    from convert_loop_page_loads [of "[0..<doc_len env d]" env d "[]"]
    obtain k where "k \<le> doc_len env d" "page_loads R = take k [0..<doc_len env d]"
      unfolding R_def by auto
    then have loads: "page_loads R = [0..<k]" by (simp add: take_upt)
    from convert_loop_steps [of env d "[0..<doc_len env d]" "[]"]
    have s1: "\<forall>ev \<in> set R. step_of ev = [1]" unfolding R_def .
    from convert_loop_quiet [of env d "[0..<doc_len env d]" "[]"]
    have q: "\<forall>ev \<in> set R.
        shown_by ev = [] \<and> json_parse ev = [] \<and> pdf_open ev = [] \<and> paragraph_add ev = []"
      unfolding R_def .
    from assms Inr have "ce = Call_fitz_open b # R @ [] \<or> ce = Call_fitz_open b # R @ [Call_close]"
      unfolding R_def
      by (auto simp: convert_pdf_to_images_eq split: sum.splits prod.splits)
    with s1 q loads show ?thesis by blast
  qed
  then obtain R tail k where
    ce: "ce = Call_fitz_open b # R @ tail" and
    tail: "tail = [] \<or> tail = [Call_close]" and
    s1: "\<forall>ev \<in> set R. step_of ev = [1]" and
    q: "\<forall>ev \<in> set R.
        shown_by ev = [] \<and> json_parse ev = [] \<and> pdf_open ev = [] \<and> paragraph_add ev = []" and
    loads: "page_loads R = [0..<k]"
    by blast
  note R = step1_readers [OF s1] ocr_calls_none [OF step1_readers(4) [OF s1]] quiet_readers [OF q]
  from tail show "downloads ce = []" by (auto simp: ce R)
  from tail show "shown ce = []" by (auto simp: ce R)
  from tail show "steps ce = replicate (length ce) 1"
    by (auto simp: ce R replicate_append_same)
  from tail show "ocr_requests ce = []" by (auto simp: ce R)
  from tail show "ocr_contexts ce = []" by (auto simp: ce R)
  from tail show "ocr_answers ce = []" by (auto simp: ce R)
  from tail show "ocr_responses ce = []" by (auto simp: ce R)
  from tail show "progress_reports ce = []" by (auto simp: ce R)
  from tail show "json_parses ce = []" by (auto simp: ce R)
  from tail show "pdf_opens ce = [b]" by (auto simp: ce R)
  from tail loads show "\<exists>k. page_loads ce = [0..<k]" by (auto simp: ce)
  from tail show "paragraph_adds ce = []" by (auto simp: ce R)
qed


lemma ocr_facts:
  assumes "ocr_loop env c il 0 il [] = (res, oe)"
  shows "downloads oe = []" "shown oe = []" "steps oe = replicate (length oe) 2"
    "json_parses oe = []" "pdf_opens oe = []" "page_loads oe = []"
    "ocr_contexts oe = replicate (length (ocr_requests oe)) language_hints_ar"
    "prefix (ocr_requests oe) il"
    "ocr_answers oe =
       map Inr (ocr_responses oe) @ (case res of Inl e \<Rightarrow> [Inl e] | Inr texts \<Rightarrow> [])"
    "progress_reports oe =
       map (\<lambda>k. nearest_double (k + 1) (length il)) [0..<length (ocr_responses oe)]"
    "paragraph_adds oe = []"
    "prefix (call_kinds oe) (replicate (length il) K_text_detection)"
    "res = Inr texts \<Longrightarrow>
     call_kinds oe = replicate (length il) K_text_detection \<and> length texts = length il"
proof -
  have "0 + length il = length il" by simp
  from ocr_loop_events [OF this, of env c "[]"] assms obtain rs tail where
    len: "length rs \<le> length il" and
    oe: "oe = page_events (length il) 0 (zip il rs) @ tail" and
    tail: "case res of
        Inr texts \<Rightarrow> tail = [] \<and> length rs = length il \<and> texts = [] @ map annotation_text rs
      | Inl e \<Rightarrow> length rs < length il \<and>
          tail = [Call_text_detection (il ! length rs) language_hints_ar (Inl e)]"
    by auto
  from len have z: "length (zip il rs) = length rs" "map snd (zip il rs) = rs"
    "map fst (zip il rs) = take (length rs) il"
    by (simp_all add: map_snd_zip_take map_fst_zip_take min_def)
  have "map (\<lambda>p. Inr (snd p)) (zip il rs) = map Inr (map snd (zip il rs))"
    by simp
  with z(2) have snd_zip: "map (\<lambda>p. Inr (snd p)) (zip il rs) = map Inr rs"
    by simp
  note pe = page_events_calls [of "length il" 0 "zip il rs"]
    page_events_silent [of "length il" 0 "zip il rs"]
    page_events_steps [of "length il" 0 "zip il rs"]
    page_events_kinds [of "length il" 0 "zip il rs"]
    progress_reports_page_events [of "length il" 0 "zip il rs"]
  show "downloads oe = []" using tail by (cases res) (simp_all add: oe pe)
  show "shown oe = []" using tail by (cases res) (simp_all add: oe pe)
  show "steps oe = replicate (length oe) 2"
    using tail by (cases res) (simp_all add: oe pe length_page_events replicate_append_same)
  show "json_parses oe = []" using tail by (cases res) (simp_all add: oe pe)
  show "pdf_opens oe = []" using tail by (cases res) (simp_all add: oe pe)
  show "page_loads oe = []" using tail by (cases res) (simp_all add: oe pe)
  show "ocr_contexts oe = replicate (length (ocr_requests oe)) language_hints_ar"
    using tail by (cases res) (simp_all add: oe pe z replicate_append_same)
  show "prefix (ocr_requests oe) il"
  proof (cases res)
    case (Inl e)
    with tail have "ocr_requests oe = take (Suc (length rs)) il"
      by (simp add: oe pe z take_Suc_conv_app_nth)
    then show ?thesis by (simp add: take_is_prefix)
  next
    case (Inr texts)
    with tail have "ocr_requests oe = il" by (simp add: oe pe z)
    then show ?thesis by simp
  qed
  show "ocr_answers oe =
       map Inr (ocr_responses oe) @ (case res of Inl e \<Rightarrow> [Inl e] | Inr texts \<Rightarrow> [])"
    using tail by (cases res) (simp_all add: oe pe z snd_zip)
  show "progress_reports oe =
       map (\<lambda>k. nearest_double (k + 1) (length il)) [0..<length (ocr_responses oe)]"
    using tail by (cases res) (simp_all add: oe pe z)
  show "paragraph_adds oe = []" using tail by (cases res) (simp_all add: oe pe)
  show "prefix (call_kinds oe) (replicate (length il) K_text_detection)"
  proof (cases res)
    case (Inl e)
    with tail have k: "call_kinds oe = replicate (Suc (length rs)) K_text_detection"
      and lt: "Suc (length rs) \<le> length il"
      by (simp_all add: oe pe z replicate_append_same)
    from lt have "replicate (length il) K_text_detection =
        replicate (Suc (length rs)) K_text_detection @
        replicate (length il - Suc (length rs)) K_text_detection"
      by (simp only: replicate_add [symmetric] le_add_diff_inverse)
    with k show ?thesis by (simp only: prefixI)
  next
    case (Inr texts)
    with tail show ?thesis by (simp add: oe pe z)
  qed
  assume "res = Inr texts"
  with tail show "call_kinds oe = replicate (length il) K_text_detection \<and>
      length texts = length il"
    by (simp add: oe pe z)
qed

lemma refused_readers:
  fixes ts :: "ustr list" and u :: ustr
  defines "evs \<equiv> concat (map (\<lambda>t. [Call_add_paragraph t, Call_add_page_break]) ts) @
                  [Call_add_paragraph u]"
  shows "steps evs = replicate (length evs) 3"
    "shown evs = []" "downloads evs = []" "json_parses evs = []" "pdf_opens evs = []"
    "page_loads evs = []" "ocr_requests evs = []" "ocr_contexts evs = []"
    "ocr_answers evs = []" "ocr_responses evs = []" "progress_reports evs = []"
    "call_kinds evs =
       concat (replicate (length ts) [K_add_paragraph, K_add_page_break]) @ [K_add_paragraph]"
    "paragraph_adds evs = ts @ [u]"
  unfolding evs_def
  using refused_events_readers [of ts] ocr_calls_none [OF refused_events_readers(9) [of ts]]
  by (simp_all add: replicate_append_same)

lemma build_facts:
  assumes "build_doc env texts = (res, de)"
  shows "downloads de = []" "shown de = []" "steps de = replicate (length de) 3"
    "json_parses de = []" "pdf_opens de = []" "page_loads de = []"
    "ocr_requests de = []" "ocr_contexts de = []" "ocr_answers de = []"
    "ocr_responses de = []" "progress_reports de = []"
    "prefix (call_kinds de) (paragraph_calls (length texts))"
    "res = Inr d \<Longrightarrow> call_kinds de = paragraph_calls (length texts) \<and> d = doc_body texts"
    "prefix (paragraph_adds de) texts"
proof -
  note a = doc_events_readers [of texts] ocr_calls_none [OF doc_events_readers(9) [of texts]]
  note b = refused_readers
  from assms consider (Built) "res = Inr (doc_body texts)" "de = doc_events texts"
    | (Refused) k e where "k < length texts" "res = Inl e"
        "de = concat (map (\<lambda>t. [Call_add_paragraph t, Call_add_page_break]) (take k texts)) @
              [Call_add_paragraph (texts ! k)]"
    by (cases rule: build_doc_cases [of texts env]) auto
  note shape = this
  show "downloads de = []" by (cases rule: shape) (simp_all only: a b)
  show "shown de = []" by (cases rule: shape) (simp_all only: a b)
  show "steps de = replicate (length de) 3" by (cases rule: shape) (simp_all only: a b)
  show "json_parses de = []" by (cases rule: shape) (simp_all only: a b)
  show "pdf_opens de = []" by (cases rule: shape) (simp_all only: a b)
  show "page_loads de = []" by (cases rule: shape) (simp_all only: a b)
  show "ocr_requests de = []" by (cases rule: shape) (simp_all only: a b)
  show "ocr_contexts de = []" by (cases rule: shape) (simp_all only: a b)
  show "ocr_answers de = []" by (cases rule: shape) (simp_all only: a b)
  show "ocr_responses de = []" by (cases rule: shape) (simp_all only: a b)
  show "progress_reports de = []" by (cases rule: shape) (simp_all only: a b)
  show "prefix (call_kinds de) (paragraph_calls (length texts))"
  proof (cases rule: shape)
    case Built
    then show ?thesis by (simp add: a)
  next
    case (Refused k e)
    then have
      "call_kinds de =
         concat (replicate (length (take k texts)) [K_add_paragraph, K_add_page_break]) @
         [K_add_paragraph]"
      by (simp only: b)
    with Refused(1) paragraph_calls_prefix [of k "length texts"] show ?thesis
      by (simp add: min_def)
  qed
  show "prefix (paragraph_adds de) texts"
  proof (cases rule: shape)
    case Built
    then show ?thesis by (simp add: a)
  next
    case (Refused k e)
    then have "paragraph_adds de = take k texts @ [texts ! k]"
      by (simp only: b)
    with Refused(1) have "paragraph_adds de = take (Suc k) texts"
      by (simp add: take_Suc_conv_app_nth)
    then show ?thesis by (simp add: take_is_prefix)
  qed
  assume "res = Inr d"
  then show "call_kinds de = paragraph_calls (length texts) \<and> d = doc_body texts"
    by (cases rule: shape) (simp_all add: a)
qed

section \<open>What holds of every run\<close>

lemma processing_cases:
  assumes "processing env f c = (res, pe)"
  obtains
    (Convert) e ce where
      "convert_pdf_to_images env (getvalue f) = (Inl e, ce)" "res = Inl e"
      "pe = St_info msg_step1 # ce"
  | (Ocr) imgs ce e oe where
      "convert_pdf_to_images env (getvalue f) = (Inr imgs, ce)"
      "ocr_loop env c imgs 0 imgs [] = (Inl e, oe)" "res = Inl e"
      "pe = St_info msg_step1 # ce @ [St_info (msg_step2 (length imgs)), St_progress 0] @ oe"
  | (Build) imgs ce texts oe e de where
      "convert_pdf_to_images env (getvalue f) = (Inr imgs, ce)"
      "ocr_loop env c imgs 0 imgs [] = (Inr texts, oe)"
      "build_doc env texts = (Inl e, de)" "res = Inl e"
      "pe = St_info msg_step1 # ce @ [St_info (msg_step2 (length imgs)), St_progress 0] @ oe @
            St_info msg_step3 # de"
  | (Save) imgs ce texts oe d de where
      "convert_pdf_to_images env (getvalue f) = (Inr imgs, ce)"
      "ocr_loop env c imgs 0 imgs [] = (Inr texts, oe)"
      "build_doc env texts = (Inr d, de)"
      "pe = St_info msg_step1 # ce @ [St_info (msg_step2 (length imgs)), St_progress 0] @ oe @
            St_info msg_step3 # de @ [Call_docx_save]"
  using assms by (auto simp: processing_eq split: sum.splits prod.splits)

lemma sorted_steps_123:
  "sorted (replicate a (1::nat) @ replicate b 2 @ replicate c 3)"
  by (auto simp: sorted_append)

lemma processing_facts:
  assumes "processing env f c = (res, pe)"
  shows "downloads pe = []"
    "set (shown pe) \<subseteq> {msg_step1, msg_step3} \<union> range msg_step2"
    "\<exists>a b c. steps pe = replicate a 1 @ replicate b 2 @ replicate c 3"
    "json_parses pe = []" "pdf_opens pe = [getvalue f]" "\<exists>k. page_loads pe = [0..<k]"
    "ocr_contexts pe = replicate (length (ocr_requests pe)) language_hints_ar"
    "prefix (ocr_requests pe)
       (case rasterizer_step env (getvalue f) of Inr imgs \<Rightarrow> imgs | Inl e \<Rightarrow> [])"
    "ocr_answers pe = map Inr (ocr_responses pe) \<or>
     (\<exists>e. res = Inl e \<and> ocr_answers pe = map Inr (ocr_responses pe) @ [Inl e])"
proof -
  note r = convert_result [of env "getvalue f", symmetric]
  from assms show "downloads pe = []"
    by (cases rule: processing_cases) (simp_all add: convert_facts ocr_facts build_facts)
  from assms show "set (shown pe) \<subseteq> {msg_step1, msg_step3} \<union> range msg_step2"
    by (cases rule: processing_cases) (simp_all add: convert_facts ocr_facts build_facts)
  from assms show "\<exists>a b c. steps pe = replicate a 1 @ replicate b 2 @ replicate c 3"
  proof (cases rule: processing_cases)
    case (Convert e ce)
    then have "steps pe = replicate (length ce) 1 @ replicate 0 2 @ replicate 0 3"
      by (simp add: convert_facts)
    then show ?thesis by blast
  next
    case (Ocr imgs ce e oe)
    then have "steps pe = replicate (length ce) 1 @ replicate (length oe) 2 @ replicate 0 3"
      by (simp add: convert_facts ocr_facts)
    then show ?thesis by blast
  next
    case (Build imgs ce texts oe e de)
    then have "steps pe =
        replicate (length ce) 1 @ replicate (length oe) 2 @ replicate (length de) 3"
      by (simp add: convert_facts ocr_facts build_facts)
    then show ?thesis by blast
  next
    case (Save imgs ce texts oe d de)
    then have "steps pe =
        replicate (length ce) 1 @ replicate (length oe) 2 @ replicate (length de + 1) 3"
      by (simp add: convert_facts ocr_facts build_facts replicate_append_same)
    then show ?thesis by blast
  qed
  from assms show "json_parses pe = []"
    by (cases rule: processing_cases) (simp_all add: convert_facts ocr_facts build_facts)
  from assms show "pdf_opens pe = [getvalue f]"
    by (cases rule: processing_cases) (simp_all add: convert_facts ocr_facts build_facts)
  from assms show "\<exists>k. page_loads pe = [0..<k]"
    by (cases rule: processing_cases) (simp_all add: convert_facts ocr_facts build_facts)
  from assms show "ocr_contexts pe = replicate (length (ocr_requests pe)) language_hints_ar"
    by (cases rule: processing_cases) (simp_all add: convert_facts ocr_facts build_facts)
  from assms show "prefix (ocr_requests pe)
       (case rasterizer_step env (getvalue f) of Inr imgs \<Rightarrow> imgs | Inl e \<Rightarrow> [])"
    by (cases rule: processing_cases) (simp_all add: r convert_facts ocr_facts build_facts)
  from assms show "ocr_answers pe = map Inr (ocr_responses pe) \<or>
     (\<exists>e. res = Inl e \<and> ocr_answers pe = map Inr (ocr_responses pe) @ [Inl e])"
    by (cases rule: processing_cases) (simp_all add: convert_facts ocr_facts build_facts)
qed


lemma try_body_cases:
  assumes "try_body env f key = (res, evs)"
  obtains
    (Json) e where
      "json_loads env key = Inl e" "res = Inl e" "evs = [Call_json_loads key]"
  | (Credentials) e where
      "res = Inl e" "evs = [Call_json_loads key, Call_from_service_account_info]"
  | (Client) e where
      "res = Inl e"
      "evs = [Call_json_loads key, Call_from_service_account_info, Call_ImageAnnotatorClient]"
  | (Processing) client e pe where
      "processing env f client = (Inl e, pe)" "res = Inl e"
      "evs = [Call_json_loads key, Call_from_service_account_info,
              Call_ImageAnnotatorClient, St_spinner_enter msg_processing] @ pe @
             [St_spinner_exit]"
  | (Encode) client r pe e where
      "processing env f client = (Inr r, pe)" "res = Inl e"
      "evs = [Call_json_loads key, Call_from_service_account_info,
              Call_ImageAnnotatorClient, St_spinner_enter msg_processing] @ pe @
             [St_spinner_exit, St_success msg_success]"
  | (Done) client r pe data where
      "processing env f client = (Inr r, pe)" "res = Inr r"
      "encode_utf8 (txt_output r) = Inr data"
      "evs = [Call_json_loads key, Call_from_service_account_info,
              Call_ImageAnnotatorClient, St_spinner_enter msg_processing] @ pe @
             [St_spinner_exit, St_success msg_success,
              St_download_button label_txt data (base_filename r @ ascii ''_OCR.txt'') mime_txt,
              St_download_button label_docx (doc_byte_arr r)
                (base_filename r @ ascii ''_OCR.docx'') mime_docx]"
  using assms by (auto simp: try_body_eq split: sum.splits prod.splits)

lemma try_body_facts:
  assumes "try_body env f key = (res, evs)"
  shows "ocr_contexts evs = replicate (length (ocr_requests evs)) language_hints_ar"
    "\<exists>a b c. steps evs = replicate a 1 @ replicate b 2 @ replicate c 3"
    "json_parses evs = [key]" "prefix (pdf_opens evs) [getvalue f]"
    "\<exists>k. page_loads evs = [0..<k]"
    "prefix (ocr_requests evs)
       (case rasterizer_step env (getvalue f) of Inr imgs \<Rightarrow> imgs | Inl e \<Rightarrow> [])"
    "ocr_answers evs = map Inr (ocr_responses evs) \<or>
     (\<exists>e. res = Inl e \<and> ocr_answers evs = map Inr (ocr_responses evs) @ [Inl e])"
    "set (shown evs) \<subseteq> {msg_processing, msg_step1, msg_step3, msg_success} \<union> range msg_step2"
proof -
  from assms show "ocr_contexts evs = replicate (length (ocr_requests evs)) language_hints_ar"
    by (cases rule: try_body_cases) (simp_all add: processing_facts)
  from assms show "\<exists>a b c. steps evs = replicate a 1 @ replicate b 2 @ replicate c 3"
  proof (cases rule: try_body_cases)
    case (Processing client e pe)
    with processing_facts(3) [OF Processing(1)] show ?thesis by simp
  next
    case (Encode client r pe e)
    with processing_facts(3) [OF Encode(1)] show ?thesis by simp
  next
    case (Done client r pe data)
    from processing_facts(3) [OF Done(1)] obtain a b c where
      "steps pe = replicate a 1 @ replicate b 2 @ replicate c 3" by blast
    moreover have "replicate c (3::nat) @ [3, 3] = replicate (c + 2) 3"
      by (induction c) simp_all
    ultimately have "steps evs = replicate a 1 @ replicate b 2 @ replicate (c + 2) 3"
      using Done by (simp del: replicate_Suc add_2_eq_Suc')
    then show ?thesis by blast
  qed (simp_all add: exI [of _ 0])
  from assms show "json_parses evs = [key]"
    by (cases rule: try_body_cases) (simp_all add: processing_facts)
  from assms show "prefix (pdf_opens evs) [getvalue f]"
    by (cases rule: try_body_cases) (simp_all add: processing_facts)
  from assms show "\<exists>k. page_loads evs = [0..<k]"
    by (cases rule: try_body_cases) (simp_all add: processing_facts exI [of _ 0])
  from assms show "prefix (ocr_requests evs)
       (case rasterizer_step env (getvalue f) of Inr imgs \<Rightarrow> imgs | Inl e \<Rightarrow> [])"
    by (cases rule: try_body_cases) (simp_all add: processing_facts)
  from assms show "ocr_answers evs = map Inr (ocr_responses evs) \<or>
     (\<exists>e. res = Inl e \<and> ocr_answers evs = map Inr (ocr_responses evs) @ [Inl e])"
  proof (cases rule: try_body_cases)
    case (Processing client e pe)
    with processing_facts(9) [OF Processing(1)] show ?thesis by simp
  next
    case (Encode client r pe e)
    with processing_facts(9) [OF Encode(1)] show ?thesis by simp
  next
    case (Done client r pe data)
    with processing_facts(9) [OF Done(1)] show ?thesis by simp
  qed simp_all
  from assms show
    "set (shown evs) \<subseteq> {msg_processing, msg_step1, msg_step3, msg_success} \<union> range msg_step2"
  proof (cases rule: try_body_cases)
    case (Processing client e pe)
    with processing_facts(2) [OF Processing(1)] show ?thesis by auto
  next
    case (Encode client r pe e)
    with processing_facts(2) [OF Encode(1)] show ?thesis by auto
  next
    case (Done client r pe data)
    with processing_facts(2) [OF Done(1)] show ?thesis by auto
  qed simp_all
qed



lemma script_run:
  "key \<noteq> [] \<Longrightarrow> try_body env f key = (Inr r, evs) \<Longrightarrow> script env (Some f) True key = evs"
  "key \<noteq> [] \<Longrightarrow> try_body env f key = (Inl e, evs) \<Longrightarrow>
   script env (Some f) True key = evs @ [St_error (msg_error_occurred e), St_error msg_hint]"
  by (simp_all add: script_def)

lemma script_cases:
  obtains (Idle) "script env uploaded_file button key = []"
  | (No_key) "script env uploaded_file button key = [St_error msg_paste_key]"
  | (Done) f r evs where "try_body env f key = (Inr r, evs)"
      "script env uploaded_file button key = evs"
  | (Failed) f e evs where "try_body env f key = (Inl e, evs)"
      "script env uploaded_file button key =
         evs @ [St_error (msg_error_occurred e), St_error msg_hint]"
proof (cases uploaded_file)
  case None
  then show thesis by (intro Idle) (simp add: script_def)
next
  case (Some f)
  show thesis
  proof (cases "button \<and> key \<noteq> []")
    case False
    with Some have "script env uploaded_file button key = [] \<or>
        script env uploaded_file button key = [St_error msg_paste_key]"
      by (auto simp: script_def)
    with Idle No_key show thesis by blast
  next
    case True
    obtain res evs where t: "try_body env f key = (res, evs)"
      by (cases "try_body env f key")
    show thesis
    proof (cases res)
      case (Inl e)
      with t Some True show thesis by (intro Failed [of f e evs]) (simp_all add: script_def)
    next
      case (Inr r)
      with t Some True show thesis by (intro Done [of f r evs]) (simp_all add: script_def)
    qed
  qed
qed

lemma script_contexts:
  "ocr_contexts (script env uploaded_file button key) =
     replicate (length (ocr_requests (script env uploaded_file button key))) language_hints_ar"
proof (cases rule: script_cases [of env uploaded_file button key])
  case Idle
  then show ?thesis by simp
next
  case No_key
  then show ?thesis by simp
next
  case (Done f r evs)
  with try_body_facts(1) [OF Done(1)] show ?thesis by simp
next
  case (Failed f e evs)
  with try_body_facts(1) [OF Failed(1)] show ?thesis by simp
qed

lemma script_steps:
  "\<exists>a b c. steps (script env uploaded_file button key) =
     replicate a 1 @ replicate b 2 @ replicate c 3"
proof (cases rule: script_cases [of env uploaded_file button key])
  case Idle
  then have "steps (script env uploaded_file button key) =
      replicate 0 1 @ replicate 0 2 @ replicate 0 3" by simp
  then show ?thesis by blast
next
  case No_key
  then have "steps (script env uploaded_file button key) =
      replicate 0 1 @ replicate 0 2 @ replicate 0 3" by simp
  then show ?thesis by blast
next
  case (Done f r evs)
  with try_body_facts(2) [OF Done(1)] show ?thesis by simp
next
  case (Failed f e evs)
  with try_body_facts(2) [OF Failed(1)] show ?thesis by simp
qed

section \<open>A run that reaches its end\<close>

lemma processing_success:
  assumes "processing env f c = (Inr r, pe)"
  obtains d R rs where
    "fitz_open env (getvalue f) = Inr d"
    "convert_loop env d [0..<doc_len env d] [] = (Inr (image_list r), R)"
    "length rs = length (image_list r)"
    "full_text r = map annotation_text rs"
    "txt_output r = make_txt_output (full_text r)"
    "doc r = doc_body (full_text r)"
    "docx_save env (doc r) = Inr (doc_byte_arr r)"
    "base_filename r = fst (splitext env (name f))"
    "pe = [St_info msg_step1, Call_fitz_open (getvalue f)] @ R @
          [Call_close, St_info (msg_step2 (length (image_list r))), St_progress 0] @
          page_events (length (image_list r)) 0 (zip (image_list r) rs) @
          [St_info msg_step3] @ doc_events (full_text r) @ [Call_docx_save]"
proof -
  from assms obtain imgs ce texts oe d' de buffer where
    c: "convert_pdf_to_images env (getvalue f) = (Inr imgs, ce)" and
    o: "ocr_loop env c imgs 0 imgs [] = (Inr texts, oe)" and
    b: "build_doc env texts = (Inr d', de)" and
    s: "docx_save env d' = Inr buffer" and
    r: "r = \<lparr>image_list = imgs, full_text = texts,
              base_filename = fst (splitext env (name f)),
              txt_output = make_txt_output texts, doc = d',
              doc_byte_arr = buffer\<rparr>" and
    pe: "pe = St_info msg_step1 # ce @
           [St_info (msg_step2 (length imgs)), St_progress 0] @ oe @
           St_info msg_step3 # de @ [Call_docx_save]"
    by (auto simp: processing_eq split: sum.splits prod.splits)
  from c obtain d R where
    d: "fitz_open env (getvalue f) = Inr d" and
    l: "convert_loop env d [0..<doc_len env d] [] = (Inr imgs, R)" and
    ce: "ce = Call_fitz_open (getvalue f) # R @ [Call_close]"
    by (auto simp: convert_pdf_to_images_eq split: sum.splits prod.splits)
  from ocr_loop_Inr [OF o] obtain rs where
    rs: "length rs = length imgs" "texts = map annotation_text rs"
        "oe = page_events (length imgs) 0 (zip imgs rs)"
    by auto
  have body: "d' = doc_body texts" "de = doc_events texts"
    using b by (cases rule: build_doc_cases [of texts env]; simp)+
  from s body rs(2) have s': "docx_save env (doc_body (map annotation_text rs)) = Inr buffer"
    by simp
  show thesis
    by (rule that [of d R rs]) (simp_all add: r d l rs s' pe ce body)
qed

lemma try_body_success:
  assumes "try_body env f key = (Inr r, evs)"
  obtains info cred client pe data where
    "json_loads env key = Inr info"
    "from_service_account_info env info = Inr cred"
    "ImageAnnotatorClient env cred = Inr client"
    "processing env f client = (Inr r, pe)"
    "encode_utf8 (txt_output r) = Inr data"
    "evs = [Call_json_loads key, Call_from_service_account_info,
            Call_ImageAnnotatorClient, St_spinner_enter msg_processing] @ pe @
           [St_spinner_exit, St_success msg_success,
            St_download_button label_txt data (base_filename r @ ascii ''_OCR.txt'') mime_txt,
            St_download_button label_docx (doc_byte_arr r)
              (base_filename r @ ascii ''_OCR.docx'') mime_docx]"
  using assms by (auto simp: try_body_eq split: sum.splits prod.splits)

lemma success_readers:
  assumes "try_body env f key = (Inr r, evs)"
  shows "ocr_requests evs = image_list r"
    "length (ocr_responses evs) = length (image_list r)"
    "full_text r = map annotation_text (ocr_responses evs)"
    "progress_reports evs =
       map (\<lambda>k. nearest_double (k + 1) (length (image_list r))) [0..<length (image_list r)]"
    "txt_output r = make_txt_output (full_text r)"
    "doc r = doc_body (full_text r)"
    "\<exists>data. encode_utf8 (txt_output r) = Inr data \<and>
       downloads evs =
         [St_download_button label_txt data (base_filename r @ ascii ''_OCR.txt'') mime_txt,
          St_download_button label_docx (doc_byte_arr r)
            (base_filename r @ ascii ''_OCR.docx'') mime_docx]"
    "paragraph_adds evs = full_text r"
proof -
  from assms obtain info cred client pe data where
    p: "processing env f client = (Inr r, pe)" and
    enc: "encode_utf8 (txt_output r) = Inr data" and
    evs: "evs = [Call_json_loads key, Call_from_service_account_info,
            Call_ImageAnnotatorClient, St_spinner_enter msg_processing] @ pe @
           [St_spinner_exit, St_success msg_success,
            St_download_button label_txt data (base_filename r @ ascii ''_OCR.txt'') mime_txt,
            St_download_button label_docx (doc_byte_arr r)
              (base_filename r @ ascii ''_OCR.docx'') mime_docx]"
    by (rule try_body_success)
  from p obtain d R rs where
    l: "convert_loop env d [0..<doc_len env d] [] = (Inr (image_list r), R)" and
    rs: "length rs = length (image_list r)" "full_text r = map annotation_text rs" and
    out: "txt_output r = make_txt_output (full_text r)" "doc r = doc_body (full_text r)" and
    pe: "pe = [St_info msg_step1, Call_fitz_open (getvalue f)] @ R @
          [Call_close, St_info (msg_step2 (length (image_list r))), St_progress 0] @
          page_events (length (image_list r)) 0 (zip (image_list r) rs) @
          [St_info msg_step3] @ doc_events (full_text r) @ [Call_docx_save]"
    by (rule processing_success)
  from convert_loop_steps [of env d "[0..<doc_len env d]" "[]"] l
  have s1: "\<forall>ev \<in> set R. step_of ev = [1]" by simp
  from convert_loop_quiet [of env d "[0..<doc_len env d]" "[]"] l
  have q: "\<forall>ev \<in> set R.
      shown_by ev = [] \<and> json_parse ev = [] \<and> pdf_open ev = [] \<and> paragraph_add ev = []"
    by simp
  note R = step1_readers [OF s1] ocr_calls_none [OF step1_readers(4) [OF s1]]
    quiet_readers [OF q]
  note z = page_events_calls [of "length (image_list r)" 0 "zip (image_list r) rs"]
    page_events_silent [of "length (image_list r)" 0 "zip (image_list r) rs"]
    progress_reports_page_events [of "length (image_list r)" 0 "zip (image_list r) rs"]
  note D = doc_events_readers [of "full_text r"]
    ocr_calls_none [OF doc_events_readers(9) [of "full_text r"]]
  from rs(1) have zip: "map fst (zip (image_list r) rs) = image_list r"
    "map snd (zip (image_list r) rs) = rs"
    by simp_all
  have resp: "ocr_responses evs = rs" by (simp add: evs pe R z D zip)
  show "ocr_requests evs = image_list r" by (simp add: evs pe R z D zip)
  show "length (ocr_responses evs) = length (image_list r)" by (simp add: resp rs)
  show "full_text r = map annotation_text (ocr_responses evs)" by (simp add: resp rs)
  show "progress_reports evs =
       map (\<lambda>k. nearest_double (k + 1) (length (image_list r))) [0..<length (image_list r)]"
    by (simp add: evs pe R z D rs(1))
  show "txt_output r = make_txt_output (full_text r)" by (rule out)
  show "doc r = doc_body (full_text r)" by (rule out)
  show "\<exists>data. encode_utf8 (txt_output r) = Inr data \<and>
       downloads evs =
         [St_download_button label_txt data (base_filename r @ ascii ''_OCR.txt'') mime_txt,
          St_download_button label_docx (doc_byte_arr r)
            (base_filename r @ ascii ''_OCR.docx'') mime_docx]"
    using enc by (simp add: evs pe R z D)
  show "paragraph_adds evs = full_text r" by (simp add: evs pe R z D)
qed

lemma success_outcome:
  assumes "try_body env f key = (Inr r, evs)"
  shows "rasterizer_step env (getvalue f) = Inr (image_list r)"
    "steps_outcome env f key = Inr (full_text r)"
    "fst (build_doc env (full_text r)) = Inr (doc r)"
    "\<forall>t \<in> set (full_text r). docx_text_error env t = None"
proof -
  from assms have t: "fst (try_body env f key) = Inr r" by simp
  then obtain client where c: "credentials_step env key = Inr client"
    and p: "fst (processing env f client) = Inr r"
    by (auto simp: try_body_result split: sum.splits)
  from p obtain imgs texts d buffer where
    a: "rasterizer_step env (getvalue f) = Inr imgs" and
    b: "ocr_step env client imgs = Inr texts" and
    bd: "fst (build_doc env texts) = Inr d" and
    r: "r = \<lparr>image_list = imgs, full_text = texts,
              base_filename = fst (splitext env (name f)),
              txt_output = make_txt_output texts, doc = d, doc_byte_arr = buffer\<rparr>"
    by (auto simp: processing_result split: sum.splits)
  from a r show "rasterizer_step env (getvalue f) = Inr (image_list r)" by simp
  from a b c r show "steps_outcome env f key = Inr (full_text r)"
    by (simp add: steps_outcome_def)
  from bd r show "fst (build_doc env (full_text r)) = Inr (doc r)" by simp
  from bd r show "\<forall>t \<in> set (full_text r). docx_text_error env t = None"
    by (cases rule: build_doc_cases [of texts env]) simp_all
qed

lemma success_images:
  assumes "try_body env f key = (Inr r, evs)" and "fitz_open env (getvalue f) = Inr d"
  shows "length (image_list r) = doc_len env d"
    "k < doc_len env d \<Longrightarrow> rendered env d k = Inr (image_list r ! k)"
proof -
  from success_outcome(1) [OF assms(1)] assms(2)
  have "rendered_pages env d [0..<doc_len env d] = Inr (image_list r)"
    by (simp add: rasterizer_step_def)
  note p = rendered_pages_Inr [OF this]
  from p show "length (image_list r) = doc_len env d" by simp
  assume "k < doc_len env d"
  with p show "rendered env d k = Inr (image_list r ! k)" by simp
qed

lemma success_downloaded:
  assumes "try_body env f key = (Inr r, evs)"
  shows "\<exists>data. encode_utf8 (txt_output r) = Inr data \<and> downloaded evs = [data, doc_byte_arr r]"
proof -
  from success_readers(7) [OF assms] obtain data where
    enc: "encode_utf8 (txt_output r) = Inr data" and
    d: "downloads evs =
         [St_download_button label_txt data (base_filename r @ ascii ''_OCR.txt'') mime_txt,
          St_download_button label_docx (doc_byte_arr r)
            (base_filename r @ ascii ''_OCR.docx'') mime_docx]"
    by blast
  have "downloaded evs = downloaded (downloads evs)" by (simp add: downloaded_downloads)
  also have "\<dots> = [data, doc_byte_arr r]" by (simp add: d)
  finally show ?thesis using enc by blast
qed

section \<open>Running the model in the small world\<close>

lemma demo_env_simps:
  "json_loads demo_env s =
     (if s = ascii ''{}'' then Inr 0 else Inl (Exception (ascii ''Expecting value'')))"
  "from_service_account_info demo_env info = Inr 0"
  "ImageAnnotatorClient demo_env cred = Inr 0"
  "fitz_open demo_env b =
     (if b = [] then Inl (Exception (ascii ''cannot open empty document''))
      else Inr (length b - 1))"
  "doc_len demo_env d = d"
  "load_page demo_env d n = Inr n"
  "get_pixmap demo_env p dpi = Inr \<lparr>width = p + 1, height = 1, samples = []\<rparr>"
  "Image_frombytes demo_env mode sz data = Inr (fst sz)"
  "Image_save demo_env img fmt = Inr [of_nat img]"
  "text_detection demo_env client im ctx = (demo_answer client, client + 1)"
  "splitext demo_env path =
     (takeWhile (\<lambda>c. c \<noteq> 46) path, dropWhile (\<lambda>c. c \<noteq> 46) path)"
  "docx_text_error demo_env t =
     (if list_ex (\<lambda>c. c < 32 \<and> c \<noteq> 9 \<and> c \<noteq> 10 \<and> c \<noteq> 13 \<or> 0xD800 \<le> c \<and> c \<le> 0xDFFF) t
      then Some (Exception (ascii ''All strings must be XML compatible''))
      else None)"
  "docx_save demo_env dc = Inr [of_nat (length dc)]"
  by (simp_all add: demo_env_def)

lemma upt_0_2: "[0..<2] = [0, 1]"
  by (simp add: upt_rec)

lemma upt_0_3: "[0..<3] = [0, 1, 2]"
  by (simp add: upt_rec)

lemma upt_0_4: "[0..<4] = [0, 1, 2, 3]"
  by (simp add: upt_rec)

lemma demo_credentials: "credentials_step demo_env demo_key = Inr 0"
  by (simp add: credentials_step_def demo_env_simps demo_key_def)

lemma demo_key_parts:
  "demo_key \<noteq> []" "json_loads demo_env demo_key = Inr 0"
  "from_service_account_info demo_env 0 = Inr 0" "ImageAnnotatorClient demo_env 0 = Inr 0"
  by (simp_all add: demo_env_simps demo_key_def ascii_def)

lemma demo_rendered: "rendered demo_env d p = Inr [of_nat (p + 1)]"
  by (simp add: rendered_def demo_env_simps)

lemma demo_render_page:
  "render_page demo_env d p =
     (Inr [of_nat (p + 1)],
      [Call_load_page p, Call_get_pixmap 300,
       Call_Image_frombytes (ascii ''RGB'') (p + 1, 1), Call_Image_save (ascii ''PNG'')])"
  by (simp add: render_page_def call_def demo_env_simps)

lemma demo_rasterizer:
  "rasterizer_step demo_env (replicate 3 37) = Inr [[1], [2]]"
  "rasterizer_step demo_env (replicate 4 37) = Inr [[1], [2], [3]]"
  "rasterizer_step demo_env (replicate 5 37) = Inr [[1], [2], [3], [4]]"
  by (simp_all add: rasterizer_step_def demo_env_simps demo_rendered upt_0_2 upt_0_3 upt_0_4)

lemma demo_ocr_step:
  "ocr_step demo_env 0 [[1], [2]] = Inr demo_texts"
  "ocr_step demo_env 0 [[1], [2], [3]] = Inr (demo_texts @ [[0x633, 0x644, 0x627, 0x645]])"
  "ocr_step demo_env 0 [[1], [2], [3], [4]] = Inl (Exception (ascii ''quota exceeded''))"
  by (simp_all add: demo_env_simps demo_answer_def annotation_text_def demo_texts_def)

lemma demo_accepted:
  "\<forall>t \<in> set demo_texts. docx_text_error demo_env t = None"
  "\<forall>t \<in> set (demo_texts @ [[0x633, 0x644, 0x627, 0x645]]). docx_text_error demo_env t = None"
  by (simp_all add: demo_env_simps demo_texts_def)

lemma demo_build_doc:
  "build_doc demo_env demo_texts = (Inr (doc_body demo_texts), doc_events demo_texts)"
  "build_doc demo_env (demo_texts @ [[0x633, 0x644, 0x627, 0x645]]) =
     (Inr (doc_body (demo_texts @ [[0x633, 0x644, 0x627, 0x645]])),
      doc_events (demo_texts @ [[0x633, 0x644, 0x627, 0x645]]))"
proof -
  show "build_doc demo_env demo_texts = (Inr (doc_body demo_texts), doc_events demo_texts)"
    using doc_loop_accepted [of 0 demo_texts demo_texts demo_env "[]"] demo_accepted(1)
    by (simp add: build_doc_def)
  show "build_doc demo_env (demo_texts @ [[0x633, 0x644, 0x627, 0x645]]) =
     (Inr (doc_body (demo_texts @ [[0x633, 0x644, 0x627, 0x645]])),
      doc_events (demo_texts @ [[0x633, 0x644, 0x627, 0x645]]))"
    using doc_loop_accepted [of 0 "demo_texts @ [[0x633, 0x644, 0x627, 0x645]]"
        "demo_texts @ [[0x633, 0x644, 0x627, 0x645]]" demo_env "[]"] demo_accepted(2)
    by (simp add: build_doc_def)
qed

lemma demo_convert_2:
  "convert_pdf_to_images demo_env (replicate 3 37) =
     (Inr [[1], [2]],
      [Call_fitz_open (replicate 3 37),
       Call_load_page 0, Call_get_pixmap 300,
       Call_Image_frombytes (ascii ''RGB'') (1, 1), Call_Image_save (ascii ''PNG''),
       Call_load_page 1, Call_get_pixmap 300,
       Call_Image_frombytes (ascii ''RGB'') (2, 1), Call_Image_save (ascii ''PNG''),
       Call_close])"
  by (simp add: convert_pdf_to_images_eq demo_env_simps demo_render_page returns_def upt_0_2)

lemma demo_ocr_2:
  assumes "length il = 2"
  shows "ocr_loop demo_env 0 il 0 [[1], [2]] [] =
     (Inr demo_texts, page_events 2 0 (zip [[1], [2]] demo_responses))"
  by (simp del: ocr_loop.simps
        add: ocr_loop_step ocr_loop.simps(1) assms demo_env_simps demo_answer_def
          annotation_text_def demo_texts_def demo_responses_def returns_def)

lemma demo_texts_2:
  "make_txt_output demo_texts =
     [0x202B, 0x645, 0x631, 0x62D, 0x628, 0x627, 10, 10, 45, 45, 45, 32, 80, 97, 103, 101,
      32, 66, 114, 101, 97, 107, 32, 45, 45, 45, 10, 10]"
  by (simp add: make_txt_output_def rtl_marker_def page_break_sep_def ascii_def demo_texts_def)

lemma demo_encode_2:
  "encode_utf8 [0x202B, 0x645, 0x631, 0x62D, 0x628, 0x627, 10, 10, 45, 45, 45, 32, 80, 97,
      103, 101, 32, 66, 114, 101, 97, 107, 32, 45, 45, 45, 10, 10] =
   Inr [226, 128, 171, 217, 133, 216, 177, 216, 173, 216, 168, 216, 167, 10, 10, 45, 45, 45,
        32, 80, 97, 103, 101, 32, 66, 114, 101, 97, 107, 32, 45, 45, 45, 10, 10]"
  by (simp add: encode_char_def)

lemma demo_encode_texts:
  "encode_utf8 (make_txt_output demo_texts) =
     Inr [226, 128, 171, 217, 133, 216, 177, 216, 173, 216, 168, 216, 167, 10, 10, 45, 45,
          45, 32, 80, 97, 103, 101, 32, 66, 114, 101, 97, 107, 32, 45, 45, 45, 10, 10]"
  unfolding demo_texts_2 by (rule demo_encode_2)

lemma demo_doc_2:
  "doc_body demo_texts =
     [Paragraph (Text [0x645, 0x631, 0x62D, 0x628, 0x627]) (Some RIGHT),
      Paragraph Page_break None, Paragraph (Text []) (Some RIGHT)]"
  "doc_events demo_texts =
     [Call_add_paragraph [0x645, 0x631, 0x62D, 0x628, 0x627], Call_add_page_break,
      Call_add_paragraph []]"
  by (simp_all add: demo_texts_def)

lemma demo_processing_2:
  assumes "getvalue f = replicate 3 37"
  shows "processing demo_env f 0 =
     (Inr \<lparr>image_list = [[1], [2]], full_text = demo_texts,
           base_filename = fst (splitext demo_env (name f)),
           txt_output = make_txt_output demo_texts, doc = doc_body demo_texts,
           doc_byte_arr = [3]\<rparr>,
      [St_info msg_step1, Call_fitz_open (replicate 3 37),
       Call_load_page 0, Call_get_pixmap 300,
       Call_Image_frombytes (ascii ''RGB'') (1, 1), Call_Image_save (ascii ''PNG''),
       Call_load_page 1, Call_get_pixmap 300,
       Call_Image_frombytes (ascii ''RGB'') (2, 1), Call_Image_save (ascii ''PNG''),
       Call_close, St_info (msg_step2 2), St_progress 0] @
      page_events 2 0 (zip [[1], [2]] demo_responses) @
      [St_info msg_step3] @ doc_events demo_texts @ [Call_docx_save])"
proof -
  have save: "docx_save demo_env (doc_body demo_texts) = Inr [3]"
    by (simp add: demo_env_simps demo_doc_2)
  have two: "length [[1], [2::8 word]] = 2" by simp
  show ?thesis
    by (simp add: processing_eq assms demo_convert_2 demo_ocr_2 [OF two] demo_build_doc save
          numeral_2_eq_2 del: ocr_loop.simps)
qed

lemma demo_run_2:
  assumes "getvalue f = replicate 3 37"
  shows "try_body demo_env f demo_key =
     (Inr \<lparr>image_list = [[1], [2]], full_text = demo_texts,
           base_filename = fst (splitext demo_env (name f)),
           txt_output = make_txt_output demo_texts, doc = doc_body demo_texts,
           doc_byte_arr = [3]\<rparr>,
      [Call_json_loads demo_key, Call_from_service_account_info, Call_ImageAnnotatorClient,
       St_spinner_enter msg_processing,
       St_info msg_step1, Call_fitz_open (replicate 3 37),
       Call_load_page 0, Call_get_pixmap 300,
       Call_Image_frombytes (ascii ''RGB'') (1, 1), Call_Image_save (ascii ''PNG''),
       Call_load_page 1, Call_get_pixmap 300,
       Call_Image_frombytes (ascii ''RGB'') (2, 1), Call_Image_save (ascii ''PNG''),
       Call_close, St_info (msg_step2 2), St_progress 0] @
      page_events 2 0 (zip [[1], [2]] demo_responses) @
      [St_info msg_step3] @ doc_events demo_texts @
      [Call_docx_save, St_spinner_exit, St_success msg_success,
       St_download_button label_txt
         [226, 128, 171, 217, 133, 216, 177, 216, 173, 216, 168, 216, 167, 10, 10, 45, 45,
          45, 32, 80, 97, 103, 101, 32, 66, 114, 101, 97, 107, 32, 45, 45, 45, 10, 10]
         (fst (splitext demo_env (name f)) @ ascii ''_OCR.txt'') mime_txt,
       St_download_button label_docx [3]
         (fst (splitext demo_env (name f)) @ ascii ''_OCR.docx'') mime_docx])"
  by (simp add: try_body_eq demo_key_parts demo_processing_2 [OF assms] demo_encode_texts
        del: encode_utf8.simps)

lemma demo_files:
  "getvalue (demo_pdf 2) = replicate 3 37" "getvalue (demo_copy 2) = replicate 3 37"
  "getvalue (demo_pdf 3) = replicate 4 37" "getvalue (demo_pdf 4) = replicate 5 37"
  by (simp_all add: demo_pdf_def demo_copy_def)

lemma demo_progress:
  "nearest_double (Suc 0) 2 = 1 / 2" "nearest_double (Suc (Suc 0)) 2 = 1"
  "nearest_double (Suc 0) 3 = 6004799503160661 / 18014398509481984"
  "nearest_double (Suc (Suc 0)) 3 = 6004799503160661 / 9007199254740992"
  "nearest_double (Suc (Suc (Suc 0))) 3 = 1"
proof -
  have n: "Suc 0 = 1" "Suc (Suc 0) = 2" "Suc (Suc (Suc 0)) = 3" by simp_all
  have same: "nearest_double 2 2 = 1" "nearest_double 3 3 = 1"
    by (rule nearest_double_same, simp)+
  show "nearest_double (Suc 0) 2 = 1 / 2"
    unfolding n(1) by (rule nearest_double_1_2)
  show "nearest_double (Suc (Suc 0)) 2 = 1"
    unfolding n(2) by (rule same)
  show "nearest_double (Suc 0) 3 = 6004799503160661 / 18014398509481984"
    unfolding n(1) by (rule nearest_double_1_3)
  show "nearest_double (Suc (Suc 0)) 3 = 6004799503160661 / 9007199254740992"
    unfolding n(2) by (rule nearest_double_2_3)
  show "nearest_double (Suc (Suc (Suc 0))) 3 = 1"
    unfolding n(3) by (rule same)
qed

lemma demo_run_2_facts:
  assumes "getvalue f = replicate 3 37"
  obtains r evs where "try_body demo_env f demo_key = (Inr r, evs)"
    "image_list r = [[1], [2]]" "full_text r = demo_texts"
    "txt_output r = make_txt_output demo_texts" "doc r = doc_body demo_texts"
    "ocr_requests evs = [[1], [2]]" "ocr_responses evs = demo_responses"
    "progress_reports evs = [1 / 2, 1]"
    "downloaded evs =
       [[226, 128, 171, 217, 133, 216, 177, 216, 173, 216, 168, 216, 167, 10, 10, 45, 45,
         45, 32, 80, 97, 103, 101, 32, 66, 114, 101, 97, 107, 32, 45, 45, 45, 10, 10], [3]]"
    "shown evs =
       [msg_processing, msg_step1, msg_step2 2, msg_step3, msg_success]"
proof -
  note run = demo_run_2 [OF assms]
  show thesis
    by (rule that [OF run]) (simp_all add: demo_responses_def demo_doc_2 demo_progress)
qed

lemma demo_run_3:
  "fst (try_body demo_env (demo_pdf 3) demo_key) =
     Inr \<lparr>image_list = [[1], [2], [3]],
          full_text = demo_texts @ [[0x633, 0x644, 0x627, 0x645]],
          base_filename = ascii ''scan'',
          txt_output = make_txt_output (demo_texts @ [[0x633, 0x644, 0x627, 0x645]]),
          doc = doc_body (demo_texts @ [[0x633, 0x644, 0x627, 0x645]]),
          doc_byte_arr = [5]\<rparr>"
proof -
  have save: "docx_save demo_env (doc_body (demo_texts @ [[0x633, 0x644, 0x627, 0x645]])) =
      Inr [5]"
    by (simp add: demo_env_simps length_doc_body demo_texts_def)
  have base: "fst (splitext demo_env (name (demo_pdf 3))) = ascii ''scan''"
    by (simp add: demo_env_simps demo_pdf_def ascii_def)
  have p: "fst (processing demo_env (demo_pdf 3) 0) =
     Inr \<lparr>image_list = [[1], [2], [3]],
          full_text = demo_texts @ [[0x633, 0x644, 0x627, 0x645]],
          base_filename = ascii ''scan'',
          txt_output = make_txt_output (demo_texts @ [[0x633, 0x644, 0x627, 0x645]]),
          doc = doc_body (demo_texts @ [[0x633, 0x644, 0x627, 0x645]]),
          doc_byte_arr = [5]\<rparr>"
    by (simp only: processing_result demo_files demo_rasterizer demo_ocr_step demo_build_doc
          save base sum.case fst_conv)
  have enc: "\<exists>data. encode_utf8 (make_txt_output (demo_texts @ [[0x633, 0x644, 0x627, 0x645]])) =
      Inr data"
    by (simp add: make_txt_output_def rtl_marker_def page_break_sep_def ascii_def
          demo_texts_def encode_char_def)
  then obtain data where
    "encode_utf8 (make_txt_output (demo_texts @ [[0x633, 0x644, 0x627, 0x645]])) = Inr data"
    by blast
  then show ?thesis
    by (simp only: try_body_result demo_credentials p sum.case results.simps)
qed


lemma encode_rtl_marker: "encode_utf8 [0x202B] = Inr [0xE2, 0x80, 0xAB]"
  by (simp add: encode_char_def)


section \<open>The claims\<close>

text \<open>
  Claim C2. For every list of page texts, the plain-text output is the right-to-left
  embedding character U+202B followed by the page texts joined with the separator
  \<^verbatim>\<open>"\n\n--- Page Break ---\n\n"\<close>. Written out: for no page it is the marker
  alone; otherwise the marker is followed at once by the first page, the output ends with
  the last page, and a separator stands between two pages only, so that the output has
  one character for the marker, the characters of the pages and 22 characters for each of
  the \<open>N - 1\<close> separators.
\<close>

theorem txt_output_marker_and_separators:
  "make_txt_output texts =
     [0x202B] @ join ([10, 10] @ ascii ''--- Page Break ---'' @ [10, 10]) texts \<and>
   make_txt_output [] = [0x202B] \<and>
   make_txt_output (t # ts) =
     [0x202B] @ t @
     concat (map (\<lambda>u. ([10, 10] @ ascii ''--- Page Break ---'' @ [10, 10]) @ u) ts) \<and>
   make_txt_output (ts @ [t]) =
     [0x202B] @
     concat (map (\<lambda>u. u @ ([10, 10] @ ascii ''--- Page Break ---'' @ [10, 10])) ts) @ t \<and>
   (texts \<noteq> [] \<longrightarrow>
      length (make_txt_output texts) =
        1 + sum_list (map length texts) + (length texts - 1) * 22)"
proof -
  have sep: "page_break_sep = [10, 10] @ ascii ''--- Page Break ---'' @ [10, 10]"
    by (simp add: page_break_sep_def)
  have len: "length page_break_sep = 22"
    by (simp add: page_break_sep_def ascii_def)
  have a: "make_txt_output texts =
      [0x202B] @ join ([10, 10] @ ascii ''--- Page Break ---'' @ [10, 10]) texts"
    by (simp only: make_txt_output_def rtl_marker_def sep)
  have b: "make_txt_output [] = [0x202B]"
    by (simp add: make_txt_output_def rtl_marker_def)
  have c: "make_txt_output (t # ts) =
     [0x202B] @ t @
     concat (map (\<lambda>u. ([10, 10] @ ascii ''--- Page Break ---'' @ [10, 10]) @ u) ts)"
    by (simp only: make_txt_output_def rtl_marker_def join_Cons sep)
  have d: "make_txt_output (ts @ [t]) =
     [0x202B] @
     concat (map (\<lambda>u. u @ ([10, 10] @ ascii ''--- Page Break ---'' @ [10, 10])) ts) @ t"
    by (simp only: make_txt_output_def rtl_marker_def join_snoc sep)
  have e: "texts \<noteq> [] \<longrightarrow>
      length (make_txt_output texts) =
        1 + sum_list (map length texts) + (length texts - 1) * 22"
    by (simp add: make_txt_output_def rtl_marker_def length_join len)
  from a b c d e show ?thesis by blast
qed

theorem txt_output_witness:
  "[[1, 2], [], [3]] \<noteq> ([] :: ustr list) \<and>
   make_txt_output [[1, 2], [], [3]] =
     [0x202B, 1, 2] @ [10, 10, 45, 45, 45, 32, 80, 97, 103, 101, 32, 66, 114, 101, 97, 107,
                      32, 45, 45, 45, 10, 10] @
     [10, 10, 45, 45, 45, 32, 80, 97, 103, 101, 32, 66, 114, 101, 97, 107,
                      32, 45, 45, 45, 10, 10] @ [3] \<and>
   length (make_txt_output [[1, 2], [], [3]]) = 48"
  using txt_output_marker_and_separators [of "[[1, 2], [], [3]]" "[1, 2]" "[[], [3]]"]
  by (simp add: ascii_def)

text \<open>
  Claim C3, as it holds. For every list of \<open>N \<ge> 1\<close> page texts that python-docx can
  store, the structured document is built and is, for every text but the last, a
  right-aligned paragraph holding the text followed by a page break, and then a
  right-aligned paragraph holding the last text. So it holds exactly \<open>N\<close> paragraphs with
  a text, each right-aligned and in the order of the texts, and exactly \<open>N - 1\<close> page
  breaks, none after the last text. A page break is a paragraph of its own, so the document
  has \<open>2 N - 1\<close> paragraphs, not \<open>N\<close>, and the paragraphs that hold a page break have
  no alignment. Every text is handed to \<^verbatim>\<open>add_paragraph\<close> once, in order.
\<close>

theorem structured_document_layout:
  assumes "texts \<noteq> []" and "\<forall>t \<in> set texts. docx_text_error env t = None"
  shows "\<exists>d. fst (build_doc env texts) = Inr d \<and>
           d = concat (map (\<lambda>t. [Paragraph (Text t) (Some RIGHT), Paragraph Page_break None])
                        (butlast texts)) @
               [Paragraph (Text (last texts)) (Some RIGHT)] \<and>
           text_paragraphs d = map (\<lambda>t. (t, Some RIGHT)) texts \<and>
           length (text_paragraphs d) = length texts \<and>
           page_breaks d = length texts - 1 \<and>
           length (paragraphs d) = 2 * length texts - 1 \<and>
           last d = Paragraph (Text (last texts)) (Some RIGHT) \<and>
           paragraph_adds (snd (build_doc env texts)) = texts"
proof -
  from assms(2) have built: "build_doc env texts = (Inr (doc_body texts), doc_events texts)"
    by (cases rule: build_doc_cases [of texts env]) auto
  from assms(1) have split: "texts = butlast texts @ [last texts]" by simp
  have "doc_body (butlast texts @ [last texts]) =
      concat (map (\<lambda>t. [Paragraph (Text t) (Some RIGHT), Paragraph Page_break None])
                (butlast texts)) @
      [Paragraph (Text (last texts)) (Some RIGHT)]"
    by (rule doc_body_snoc)
  with split have shape: "doc_body texts =
      concat (map (\<lambda>t. [Paragraph (Text t) (Some RIGHT), Paragraph Page_break None])
                (butlast texts)) @
      [Paragraph (Text (last texts)) (Some RIGHT)]"
    by simp
  from shape have l: "last (doc_body texts) = Paragraph (Text (last texts)) (Some RIGHT)"
    by simp
  have a: "fst (build_doc env texts) = Inr (doc_body texts)"
    "paragraph_adds (snd (build_doc env texts)) = texts"
    by (simp_all add: built doc_events_readers)
  have b: "text_paragraphs (doc_body texts) = map (\<lambda>t. (t, Some RIGHT)) texts"
    "length (text_paragraphs (doc_body texts)) = length texts"
    "page_breaks (doc_body texts) = length texts - 1"
    "length (paragraphs (doc_body texts)) = 2 * length texts - 1"
    by (simp_all add: text_paragraphs_doc_body page_breaks_doc_body length_paragraphs
          length_doc_body)
  from a b shape l show ?thesis by (intro exI [of _ "doc_body texts"] conjI)
qed

theorem structured_document_layout_witness:
  "[[0x645, 0x631], [], [0x62D, 0x628]] \<noteq> ([] :: ustr list) \<and>
   docx_text_error demo_env [0x645, 0x631] = None \<and> docx_text_error demo_env [] = None \<and>
   docx_text_error demo_env [0x62D, 0x628] = None \<and>
   fst (build_doc demo_env [[0x645, 0x631], [], [0x62D, 0x628]]) =
     Inr [Paragraph (Text [0x645, 0x631]) (Some RIGHT), Paragraph Page_break None,
          Paragraph (Text []) (Some RIGHT), Paragraph Page_break None,
          Paragraph (Text [0x62D, 0x628]) (Some RIGHT)] \<and>
   paragraph_adds (snd (build_doc demo_env [[0x645, 0x631], [], [0x62D, 0x628]])) =
     [[0x645, 0x631], [], [0x62D, 0x628]]"
proof -
  have ne: "[[0x645, 0x631], [], [0x62D, 0x628]] \<noteq> ([] :: ustr list)" by simp
  have each: "docx_text_error demo_env [0x645, 0x631] = None" "docx_text_error demo_env [] = None"
    "docx_text_error demo_env [0x62D, 0x628] = None"
    by (simp_all add: demo_env_simps)
  then have ok:
    "\<forall>t \<in> set [[0x645, 0x631], [], [0x62D, 0x628]]. docx_text_error demo_env t = None"
    by simp
  from structured_document_layout [OF ne ok] obtain d where
    d: "fst (build_doc demo_env [[0x645, 0x631], [], [0x62D, 0x628]]) = Inr d"
    and shape: "d = concat (map (\<lambda>t. [Paragraph (Text t) (Some RIGHT), Paragraph Page_break None])
                        (butlast [[0x645, 0x631], [], [0x62D, 0x628]])) @
               [Paragraph (Text (last [[0x645, 0x631], [], [0x62D, 0x628]])) (Some RIGHT)]"
    and adds: "paragraph_adds (snd (build_doc demo_env [[0x645, 0x631], [], [0x62D, 0x628]])) =
       [[0x645, 0x631], [], [0x62D, 0x628]]"
    by blast
  from shape have "d = [Paragraph (Text [0x645, 0x631]) (Some RIGHT), Paragraph Page_break None,
          Paragraph (Text []) (Some RIGHT), Paragraph Page_break None,
          Paragraph (Text [0x62D, 0x628]) (Some RIGHT)]"
    by simp
  with d have "fst (build_doc demo_env [[0x645, 0x631], [], [0x62D, 0x628]]) =
     Inr [Paragraph (Text [0x645, 0x631]) (Some RIGHT), Paragraph Page_break None,
          Paragraph (Text []) (Some RIGHT), Paragraph Page_break None,
          Paragraph (Text [0x62D, 0x628]) (Some RIGHT)]"
    by simp
  with ne each adds show ?thesis by blast
qed

text \<open>
  The claim as the specification words it (exactly \<open>N\<close> paragraphs, each right-aligned,
  for every list of texts) fails on two texts: the document built from them has three
  paragraphs, and the second, which holds the page break, has no alignment. It also fails
  on a text with a control character: \<^verbatim>\<open>add_paragraph\<close> raises and no document is
  built.
\<close>

theorem structured_document_counterexample:
  "build_doc demo_env [[0x645, 0x631], [0x62D, 0x628]] =
     (Inr [Paragraph (Text [0x645, 0x631]) (Some RIGHT), Paragraph Page_break None,
           Paragraph (Text [0x62D, 0x628]) (Some RIGHT)],
      [Call_add_paragraph [0x645, 0x631], Call_add_page_break,
       Call_add_paragraph [0x62D, 0x628]]) \<and>
   length (paragraphs [Paragraph (Text [0x645, 0x631]) (Some RIGHT), Paragraph Page_break None,
                       Paragraph (Text [0x62D, 0x628]) (Some RIGHT)]) = 3 \<and>
   length [[0x645, 0x631], [0x62D, 0x628 :: nat]] = 2 \<and>
   paragraphs [Paragraph (Text [0x645, 0x631]) (Some RIGHT), Paragraph Page_break None,
               Paragraph (Text [0x62D, 0x628]) (Some RIGHT)] ! 1 = (Page_break, None) \<and>
   build_doc demo_env [[0x645, 0x631], [0x62D, 0, 0x628]] =
     (Inl (Exception (ascii ''All strings must be XML compatible'')),
      [Call_add_paragraph [0x645, 0x631], Call_add_page_break,
       Call_add_paragraph [0x62D, 0, 0x628]])"
  by (simp del: doc_loop.simps
        add: build_doc_def doc_loop_step doc_loop.simps(1) returns_def demo_env_simps
          paragraphs_def)

text \<open>
  Claim C1, as it holds. For a valid PDF of \<open>N\<close> pages (\<open>fitz.open\<close> returns a
  document of length \<open>N\<close>) and a run that reaches its end: the list of page images has
  length \<open>N\<close> and its \<open>k\<close>-th entry is the PNG of page \<open>k\<close> rendered at 300 dpi; the
  images are sent to the remote service in that order; \<open>full_text\<close> has length \<open>N\<close>
  and its \<open>k\<close>-th entry is the text of the \<open>k\<close>-th response; the plain-text output is
  the marker, the first text and, for each of the \<open>N - 1\<close> other texts in order, the
  separator and the text, so it has \<open>N\<close> segments; and the structured document has
  exactly \<open>N\<close> paragraphs that hold a text, right-aligned, whose texts are these \<open>N\<close>
  texts in order. The document has \<open>N - 1\<close> more paragraphs, one for each page break:
  its number of paragraphs is \<open>2 N - 1\<close>, not \<open>N\<close>.
\<close>

theorem page_count_invariant:
  assumes "try_body env f key = (Inr r, evs)" and "fitz_open env (getvalue f) = Inr d"
  shows "length (image_list r) = doc_len env d \<and>
         (\<forall>k < doc_len env d. rendered env d k = Inr (image_list r ! k)) \<and>
         ocr_requests evs = image_list r \<and>
         length (full_text r) = doc_len env d \<and>
         full_text r = map annotation_text (ocr_responses evs) \<and>
         txt_output r =
           0x202B #
           (case full_text r of
              [] \<Rightarrow> []
            | t # ts \<Rightarrow>
                t @ concat (map (\<lambda>u. ([10, 10] @ ascii ''--- Page Break ---'' @ [10, 10]) @ u)
                             ts)) \<and>
         (full_text r \<noteq> [] \<longrightarrow>
            length (txt_output r) =
              1 + sum_list (map length (full_text r)) + (doc_len env d - 1) * 22) \<and>
         text_paragraphs (doc r) = map (\<lambda>t. (t, Some RIGHT)) (full_text r) \<and>
         length (text_paragraphs (doc r)) = doc_len env d \<and>
         page_breaks (doc r) = doc_len env d - 1 \<and>
         length (paragraphs (doc r)) = 2 * doc_len env d - 1"
proof -
  note img = success_images [OF assms]
  note rd = success_readers [OF assms(1)]
  from rd(2) rd(3) img(1) have n: "length (full_text r) = doc_len env d" by simp
  have marker: "txt_output r =
           0x202B #
           (case full_text r of
              [] \<Rightarrow> []
            | t # ts \<Rightarrow>
                t @ concat (map (\<lambda>u. ([10, 10] @ ascii ''--- Page Break ---'' @ [10, 10]) @ u)
                             ts))"
  proof (cases "full_text r")
    case Nil
    with rd(5) show ?thesis by (simp add: make_txt_output_def rtl_marker_def)
  next
    case (Cons t ts)
    show ?thesis
      by (simp only: rd(5) Cons make_txt_output_def rtl_marker_def join_Cons page_break_sep_def
            list.case append_Cons append_Nil)
  qed
  have len: "full_text r \<noteq> [] \<longrightarrow>
      length (txt_output r) =
        1 + sum_list (map length (full_text r)) + (doc_len env d - 1) * 22"
    using n by (simp add: rd(5) make_txt_output_def rtl_marker_def length_join
          length_page_break_sep)
  from rd(6) have pars:
    "text_paragraphs (doc r) = map (\<lambda>t. (t, Some RIGHT)) (full_text r)"
    by (simp add: text_paragraphs_doc_body)
  from pars n have plen: "length (text_paragraphs (doc r)) = doc_len env d" by simp
  from rd(6) n have breaks: "page_breaks (doc r) = doc_len env d - 1"
    by (simp add: page_breaks_doc_body)
  from rd(6) n have all: "length (paragraphs (doc r)) = 2 * doc_len env d - 1"
    by (simp add: length_paragraphs length_doc_body)
  from img(2) have pages: "\<forall>k < doc_len env d. rendered env d k = Inr (image_list r ! k)"
    by blast
  from img(1) pages rd(1) n rd(3) marker len pars plen breaks all show ?thesis
    by (intro conjI)
qed

theorem page_count_invariant_witness:
  "\<exists>r evs. try_body demo_env (demo_pdf 2) demo_key = (Inr r, evs) \<and>
      fitz_open demo_env (getvalue (demo_pdf 2)) = Inr 2 \<and> doc_len demo_env 2 = 2 \<and>
      full_text r \<noteq> [] \<and>
      length (image_list r) = 2 \<and> ocr_requests evs = image_list r \<and>
      length (full_text r) = 2 \<and> length (txt_output r) = 28 \<and>
      length (text_paragraphs (doc r)) = 2 \<and> page_breaks (doc r) = 1 \<and>
      length (paragraphs (doc r)) = 3"
proof -
  obtain r evs where run: "try_body demo_env (demo_pdf 2) demo_key = (Inr r, evs)"
    and texts: "full_text r = demo_texts"
    by (rule demo_run_2_facts [OF demo_files(1)])
  have pdf: "fitz_open demo_env (getvalue (demo_pdf 2)) = Inr 2"
    by (simp add: demo_env_simps demo_pdf_def)
  have len: "doc_len demo_env 2 = 2"
    by (simp add: demo_env_simps)
  from texts have ne: "full_text r \<noteq> []" by (simp add: demo_texts_def)
  from page_count_invariant [OF run pdf] ne have
    "length (image_list r) = doc_len demo_env 2" "ocr_requests evs = image_list r"
    "length (full_text r) = doc_len demo_env 2"
    "length (txt_output r) =
       1 + sum_list (map length (full_text r)) + (doc_len demo_env 2 - 1) * 22"
    "length (text_paragraphs (doc r)) = doc_len demo_env 2"
    "page_breaks (doc r) = doc_len demo_env 2 - 1"
    "length (paragraphs (doc r)) = 2 * doc_len demo_env 2 - 1"
    by blast+
  then have "length (image_list r) = 2" "ocr_requests evs = image_list r"
    "length (full_text r) = 2" "length (txt_output r) = 28"
    "length (text_paragraphs (doc r)) = 2" "page_breaks (doc r) = 1"
    "length (paragraphs (doc r)) = 3"
    by (simp_all add: len texts demo_texts_def)
  with run pdf len ne show ?thesis by (simp only: simp_thms) blast
qed

text \<open>
  The claim as the specification words it (the number of paragraphs of the structured
  document is \<open>N\<close>) fails on a PDF of two pages: the run reaches its end with two page
  images and two page texts, and the document has three paragraphs.
\<close>

theorem page_count_counterexample:
  "fst (try_body demo_env (demo_pdf 2) demo_key) =
     Inr \<lparr>image_list = [[1], [2]],
          full_text = [[0x645, 0x631, 0x62D, 0x628, 0x627], []],
          base_filename = ascii ''scan'',
          txt_output =
            [0x202B, 0x645, 0x631, 0x62D, 0x628, 0x627, 10, 10, 45, 45, 45, 32, 80, 97, 103,
             101, 32, 66, 114, 101, 97, 107, 32, 45, 45, 45, 10, 10],
          doc = [Paragraph (Text [0x645, 0x631, 0x62D, 0x628, 0x627]) (Some RIGHT),
                 Paragraph Page_break None, Paragraph (Text []) (Some RIGHT)],
          doc_byte_arr = [3]\<rparr> \<and>
   fitz_open demo_env (getvalue (demo_pdf 2)) = Inr 2 \<and> doc_len demo_env 2 = 2 \<and>
   length (paragraphs [Paragraph (Text [0x645, 0x631, 0x62D, 0x628, 0x627]) (Some RIGHT),
                       Paragraph Page_break None, Paragraph (Text []) (Some RIGHT)]) = 3"
proof -
  have base: "fst (splitext demo_env (name (demo_pdf 2))) = ascii ''scan''"
    by (simp add: demo_env_simps demo_pdf_def ascii_def)
  have "fst (try_body demo_env (demo_pdf 2) demo_key) =
     Inr \<lparr>image_list = [[1], [2]], full_text = demo_texts,
          base_filename = fst (splitext demo_env (name (demo_pdf 2))),
          txt_output = make_txt_output demo_texts, doc = doc_body demo_texts,
          doc_byte_arr = [3]\<rparr>"
    by (simp only: demo_run_2 [OF demo_files(1)] fst_conv)
  then have a: "fst (try_body demo_env (demo_pdf 2) demo_key) =
     Inr \<lparr>image_list = [[1], [2]],
          full_text = [[0x645, 0x631, 0x62D, 0x628, 0x627], []],
          base_filename = ascii ''scan'',
          txt_output =
            [0x202B, 0x645, 0x631, 0x62D, 0x628, 0x627, 10, 10, 45, 45, 45, 32, 80, 97, 103,
             101, 32, 66, 114, 101, 97, 107, 32, 45, 45, 45, 10, 10],
          doc = [Paragraph (Text [0x645, 0x631, 0x62D, 0x628, 0x627]) (Some RIGHT),
                 Paragraph Page_break None, Paragraph (Text []) (Some RIGHT)],
          doc_byte_arr = [3]\<rparr>"
    by (simp only: base demo_texts_2 demo_doc_2) (simp only: demo_texts_def)
  have b: "fitz_open demo_env (getvalue (demo_pdf 2)) = Inr 2" "doc_len demo_env 2 = 2"
    by (simp_all add: demo_env_simps demo_pdf_def)
  have c: "length (paragraphs [Paragraph (Text [0x645, 0x631, 0x62D, 0x628, 0x627]) (Some RIGHT),
                       Paragraph Page_break None, Paragraph (Text []) (Some RIGHT)]) = 3"
    by (simp add: paragraphs_def)
  from a b c show ?thesis by (intro conjI)
qed



text \<open>
  Claim C7. Every request to the OCR service carries the language hint for Arabic,
  \<^verbatim>\<open>{"language_hints": ["ar"]}\<close>, and when the response has annotations the string
  returned is the description of the first of them. The first holds of the one call
  \<^verbatim>\<open>detect_text_in_image\<close> makes, and of every call made in any run of the script.
\<close>

theorem arabic_hint_and_first_annotation:
  "snd (detect_text_in_image env img c) =
     [Call_text_detection img [(ascii ''language_hints'', [ascii ''ar''])]
        (fst (text_detection env c img [(ascii ''language_hints'', [ascii ''ar''])]))] \<and>
   (text_detection env c img [(ascii ''language_hints'', [ascii ''ar''])] = (Inr resp, c') \<longrightarrow>
      text_annotations resp \<noteq> [] \<longrightarrow>
      fst (detect_text_in_image env img c) =
        Inr (description (hd (text_annotations resp)), c')) \<and>
   (\<forall>ctx \<in> set (ocr_contexts (script env uploaded_file button key)).
      ctx = [(ascii ''language_hints'', [ascii ''ar''])])"
proof (intro conjI impI ballI)
  show "snd (detect_text_in_image env img c) =
     [Call_text_detection img [(ascii ''language_hints'', [ascii ''ar''])]
        (fst (text_detection env c img [(ascii ''language_hints'', [ascii ''ar''])]))]"
    by (simp add: detect_text_in_image_eq language_hints_ar_def split: prod.splits sum.splits)
next
  assume "text_detection env c img [(ascii ''language_hints'', [ascii ''ar''])] = (Inr resp, c')"
    and "text_annotations resp \<noteq> []"
  then show "fst (detect_text_in_image env img c) =
      Inr (description (hd (text_annotations resp)), c')"
    by (cases "text_annotations resp")
       (simp_all add: detect_text_in_image_eq language_hints_ar_def annotation_text_def)
next
  fix ctx
  assume "ctx \<in> set (ocr_contexts (script env uploaded_file button key))"
  then have "ctx = language_hints_ar"
    by (subst (asm) script_contexts) simp
  then show "ctx = [(ascii ''language_hints'', [ascii ''ar''])]"
    by (simp add: language_hints_ar_def)
qed

theorem arabic_hint_and_first_annotation_witness:
  "text_detection demo_env 0 [1] [(ascii ''language_hints'', [ascii ''ar''])] =
     (Inr (demo_responses ! 0), 1) \<and>
   text_annotations (demo_responses ! 0) \<noteq> [] \<and>
   fst (detect_text_in_image demo_env [1] 0) = Inr ([0x645, 0x631, 0x62D, 0x628, 0x627], 1) \<and>
   ocr_contexts (script demo_env (Some (demo_pdf 2)) True demo_key) =
     [[(ascii ''language_hints'', [ascii ''ar''])], [(ascii ''language_hints'', [ascii ''ar''])]]"
proof -
  have a: "text_detection demo_env 0 [1] [(ascii ''language_hints'', [ascii ''ar''])] =
     (Inr (demo_responses ! 0), 1)"
    by (simp add: demo_env_simps demo_answer_def demo_responses_def)
  have b: "text_annotations (demo_responses ! 0) \<noteq> []"
    by (simp add: demo_responses_def)
  from arabic_hint_and_first_annotation [of demo_env "[1]" 0 "demo_responses ! 0" 1
      "Some (demo_pdf 2)" True demo_key] a b
  have c: "fst (detect_text_in_image demo_env [1] 0) =
      Inr (description (hd (text_annotations (demo_responses ! 0))), 1)"
    and d: "\<forall>ctx \<in> set (ocr_contexts (script demo_env (Some (demo_pdf 2)) True demo_key)).
      ctx = [(ascii ''language_hints'', [ascii ''ar''])]"
    by blast+
  have key: "demo_key \<noteq> []" by (simp add: demo_key_def ascii_def)
  obtain r evs where run: "try_body demo_env (demo_pdf 2) demo_key = (Inr r, evs)"
    and req: "ocr_requests evs = [[1], [2]]"
    by (rule demo_run_2_facts [OF demo_files(1)])
  from req have "length (ocr_requests evs) = 2" by simp
  then have "length (ocr_contexts evs) = 2"
    by (simp add: ocr_contexts_def ocr_requests_def)
  with script_run(1) [OF key run]
  have "length (ocr_contexts (script demo_env (Some (demo_pdf 2)) True demo_key)) = 2"
    by simp
  with d have "ocr_contexts (script demo_env (Some (demo_pdf 2)) True demo_key) =
     [[(ascii ''language_hints'', [ascii ''ar''])], [(ascii ''language_hints'', [ascii ''ar''])]]"
    by (cases "ocr_contexts (script demo_env (Some (demo_pdf 2)) True demo_key)" rule: list.exhaust;
        cases "tl (ocr_contexts (script demo_env (Some (demo_pdf 2)) True demo_key))")
       auto
  with a b c show ?thesis by (simp add: demo_responses_def)
qed

text \<open>
  Claim C9. For a valid PDF with no pages the run reaches its end without an error. The
  loop over the page images is not entered, so neither a call to the remote service nor a
  progress update (with its division by the page count) happens; the plain-text output is
  the marker U+202B alone; the structured document has no paragraph and no page break.
  (The claim is about the PDF: the credentials are taken to be accepted and the empty
  document to be written.)
\<close>

theorem zero_page_pdf:
  assumes "key \<noteq> []" and "json_loads env key = Inr info"
    and "from_service_account_info env info = Inr cred"
    and "ImageAnnotatorClient env cred = Inr client"
    and "fitz_open env (getvalue f) = Inr d" and "doc_len env d = 0"
    and "docx_save env [] = Inr buffer"
  shows "script env (Some f) True key =
           [Call_json_loads key, Call_from_service_account_info, Call_ImageAnnotatorClient,
            St_spinner_enter msg_processing, St_info msg_step1,
            Call_fitz_open (getvalue f), Call_close, St_info (msg_step2 0), St_progress 0,
            St_info msg_step3, Call_docx_save, St_spinner_exit, St_success msg_success,
            St_download_button label_txt [0xE2, 0x80, 0xAB]
              (fst (splitext env (name f)) @ ascii ''_OCR.txt'') mime_txt,
            St_download_button label_docx buffer
              (fst (splitext env (name f)) @ ascii ''_OCR.docx'') mime_docx] \<and>
         (\<exists>r. try_body env f key = (Inr r, script env (Some f) True key) \<and>
              image_list r = [] \<and> full_text r = [] \<and> txt_output r = [0x202B] \<and>
              doc r = [] \<and> paragraphs (doc r) = [] \<and> page_breaks (doc r) = 0) \<and>
         ocr_requests (script env (Some f) True key) = [] \<and>
         progress_reports (script env (Some f) True key) = []"
proof -
  have conv: "convert_pdf_to_images env (getvalue f) =
      (Inr [], [Call_fitz_open (getvalue f), Call_close])"
    by (simp add: convert_pdf_to_images_eq assms returns_def)
  have build: "build_doc env [] = (Inr [], [])"
    by (simp add: build_doc_def returns_def)
  have proc: "processing env f client =
      (Inr \<lparr>image_list = [], full_text = [], base_filename = fst (splitext env (name f)),
            txt_output = [0x202B], doc = [], doc_byte_arr = buffer\<rparr>,
       [St_info msg_step1, Call_fitz_open (getvalue f), Call_close, St_info (msg_step2 0),
        St_progress 0, St_info msg_step3, Call_docx_save])"
    by (simp add: processing_eq conv returns_def build make_txt_output_def
          rtl_marker_def assms)
  have run: "try_body env f key =
      (Inr \<lparr>image_list = [], full_text = [], base_filename = fst (splitext env (name f)),
            txt_output = [0x202B], doc = [], doc_byte_arr = buffer\<rparr>,
       [Call_json_loads key, Call_from_service_account_info, Call_ImageAnnotatorClient,
        St_spinner_enter msg_processing, St_info msg_step1,
        Call_fitz_open (getvalue f), Call_close, St_info (msg_step2 0), St_progress 0,
        St_info msg_step3, Call_docx_save, St_spinner_exit, St_success msg_success,
        St_download_button label_txt [0xE2, 0x80, 0xAB]
          (fst (splitext env (name f)) @ ascii ''_OCR.txt'') mime_txt,
        St_download_button label_docx buffer
          (fst (splitext env (name f)) @ ascii ''_OCR.docx'') mime_docx])"
    by (simp add: try_body_eq assms proc encode_rtl_marker del: encode_utf8.simps)
  note trace = script_run(1) [OF assms(1) run]
  show ?thesis
    by (simp add: trace run paragraphs_def page_breaks_def)
qed

theorem zero_page_pdf_witness:
  "demo_key \<noteq> [] \<and> json_loads demo_env demo_key = Inr 0 \<and>
   fitz_open demo_env (getvalue (demo_pdf 0)) = Inr 0 \<and> doc_len demo_env 0 = 0 \<and>
   docx_save demo_env [] = Inr [0] \<and>
   downloaded (script demo_env (Some (demo_pdf 0)) True demo_key) = [[0xE2, 0x80, 0xAB], [0]] \<and>
   progress_reports (script demo_env (Some (demo_pdf 0)) True demo_key) = [] \<and>
   ocr_requests (script demo_env (Some (demo_pdf 0)) True demo_key) = []"
proof -
  have h: "demo_key \<noteq> []" "json_loads demo_env demo_key = Inr 0"
    "from_service_account_info demo_env 0 = Inr 0" "ImageAnnotatorClient demo_env 0 = Inr 0"
    "fitz_open demo_env (getvalue (demo_pdf 0)) = Inr 0" "doc_len demo_env 0 = 0"
    "docx_save demo_env [] = Inr [0]"
    by (simp_all add: demo_env_simps demo_key_def demo_pdf_def ascii_def)
  from zero_page_pdf [OF h] have
    t: "script demo_env (Some (demo_pdf 0)) True demo_key =
           [Call_json_loads demo_key, Call_from_service_account_info,
            Call_ImageAnnotatorClient,
            St_spinner_enter msg_processing, St_info msg_step1,
            Call_fitz_open (getvalue (demo_pdf 0)), Call_close, St_info (msg_step2 0),
            St_progress 0,
            St_info msg_step3, Call_docx_save, St_spinner_exit, St_success msg_success,
            St_download_button label_txt [0xE2, 0x80, 0xAB]
              (fst (splitext demo_env (name (demo_pdf 0))) @ ascii ''_OCR.txt'') mime_txt,
            St_download_button label_docx [0]
              (fst (splitext demo_env (name (demo_pdf 0))) @ ascii ''_OCR.docx'') mime_docx]"
    and q: "ocr_requests (script demo_env (Some (demo_pdf 0)) True demo_key) = []"
      "progress_reports (script demo_env (Some (demo_pdf 0)) True demo_key) = []"
    by blast+
  have "downloaded (script demo_env (Some (demo_pdf 0)) True demo_key) =
      [[0xE2, 0x80, 0xAB], [0]]"
    unfolding t by simp
  with h q show ?thesis by blast
qed

text \<open>
  Claim C10. Two runs that reach their end and received the same responses from the remote
  service, page by page, produce the same page texts, the same plain-text output and
  buffer, and the same sequence of paragraphs and page breaks. This holds whatever else
  differs between the runs; in particular it holds for two runs on identical PDF bytes,
  file name and credential string.
\<close>

theorem outputs_determined_by_responses:
  assumes "try_body env1 f1 key1 = (Inr r1, evs1)"
    and "try_body env2 f2 key2 = (Inr r2, evs2)"
    and "ocr_responses evs1 = ocr_responses evs2"
  shows "full_text r1 = full_text r2 \<and> txt_output r1 = txt_output r2 \<and> doc r1 = doc r2 \<and>
         (\<exists>data. encode_utf8 (txt_output r1) = Inr data \<and>
            downloaded evs1 = [data, doc_byte_arr r1] \<and>
            downloaded evs2 = [data, doc_byte_arr r2])"
proof -
  note a = success_readers [OF assms(1)] and b = success_readers [OF assms(2)]
  from a(3) b(3) assms(3) have texts: "full_text r1 = full_text r2" by simp
  with a(5) b(5) have out: "txt_output r1 = txt_output r2" by simp
  from texts a(6) b(6) have docs: "doc r1 = doc r2" by simp
  from success_downloaded [OF assms(1)] obtain data where
    d1: "encode_utf8 (txt_output r1) = Inr data" "downloaded evs1 = [data, doc_byte_arr r1]"
    by blast
  from success_downloaded [OF assms(2)] obtain data' where
    d2: "encode_utf8 (txt_output r2) = Inr data'" "downloaded evs2 = [data', doc_byte_arr r2]"
    by blast
  from d1(1) d2(1) out have "data' = data" by simp
  with texts out docs d1 d2 show ?thesis by blast
qed

theorem outputs_determined_by_responses_witness:
  "\<exists>r1 evs1 r2 evs2.
     try_body demo_env (demo_pdf 2) demo_key = (Inr r1, evs1) \<and>
     try_body demo_env (demo_copy 2) demo_key = (Inr r2, evs2) \<and>
     ocr_responses evs1 = ocr_responses evs2 \<and> name (demo_pdf 2) \<noteq> name (demo_copy 2) \<and>
     txt_output r1 = txt_output r2 \<and> doc r1 = doc r2 \<and>
     hd (downloaded evs1) = hd (downloaded evs2)"
proof -
  obtain r1 evs1 where run1: "try_body demo_env (demo_pdf 2) demo_key = (Inr r1, evs1)"
    and resp1: "ocr_responses evs1 = demo_responses"
    by (rule demo_run_2_facts [OF demo_files(1)])
  obtain r2 evs2 where run2: "try_body demo_env (demo_copy 2) demo_key = (Inr r2, evs2)"
    and resp2: "ocr_responses evs2 = demo_responses"
    by (rule demo_run_2_facts [OF demo_files(2)])
  from resp1 resp2 have same: "ocr_responses evs1 = ocr_responses evs2" by simp
  have names: "name (demo_pdf 2) \<noteq> name (demo_copy 2)"
    by (simp add: demo_pdf_def demo_copy_def ascii_def)
  from outputs_determined_by_responses [OF run1 run2 same] obtain data where
    "txt_output r1 = txt_output r2" "doc r1 = doc r2"
    "downloaded evs1 = [data, doc_byte_arr r1]" "downloaded evs2 = [data, doc_byte_arr r2]"
    by blast
  then have "txt_output r1 = txt_output r2" "doc r1 = doc r2"
    "hd (downloaded evs1) = hd (downloaded evs2)"
    by simp_all
  with run1 run2 same names show ?thesis by blast
qed

text \<open>
  Claim C5. When the button is pressed with a file uploaded and the credential string is
  empty or does not parse as JSON, the run reports an error and stops: for the empty string
  nothing is called at all, for a string that does not parse only \<^verbatim>\<open>json.loads\<close>;
  the PDF is not opened, no page is loaded and no image is sent to the remote service.
\<close>

theorem bad_credentials_stop_the_run:
  assumes "key = [] \<or> json_loads env key = Inl e"
  shows "script env (Some f) True key =
           (if key = [] then [St_error msg_paste_key]
            else [Call_json_loads key,
                  St_error (ascii ''An error occurred: '' @ message e), St_error msg_hint]) \<and>
         steps (script env (Some f) True key) = [] \<and>
         pdf_opens (script env (Some f) True key) = [] \<and>
         page_loads (script env (Some f) True key) = [] \<and>
         ocr_requests (script env (Some f) True key) = []"
proof (cases "key = []")
  case True
  then have "script env (Some f) True key = [St_error msg_paste_key]"
    by (simp add: script_def)
  with True show ?thesis by simp
next
  case False
  with assms have "json_loads env key = Inl e" by simp
  then have "try_body env f key = (Inl e, [Call_json_loads key])"
    by (simp add: try_body_eq)
  from script_run(2) [OF False this] False show ?thesis
    by (simp add: msg_error_occurred_def)
qed

theorem bad_credentials_stop_the_run_witness:
  "json_loads demo_env (ascii ''not json'') = Inl (Exception (ascii ''Expecting value'')) \<and>
   script demo_env (Some (demo_pdf 2)) True [] = [St_error msg_paste_key] \<and>
   script demo_env (Some (demo_pdf 2)) True (ascii ''not json'') =
     [Call_json_loads (ascii ''not json''),
      St_error (ascii ''An error occurred: Expecting value''), St_error msg_hint] \<and>
   pdf_opens (script demo_env (Some (demo_pdf 2)) True (ascii ''not json'')) = [] \<and>
   ocr_requests (script demo_env (Some (demo_pdf 2)) True (ascii ''not json'')) = []"
proof -
  have bad: "json_loads demo_env (ascii ''not json'') =
      Inl (Exception (ascii ''Expecting value''))"
    by (simp add: demo_env_simps ascii_def)
  have ne: "ascii ''not json'' \<noteq> []" by (simp add: ascii_def)
  from bad_credentials_stop_the_run [of "[]" demo_env "Exception []" "demo_pdf 2"]
  have a: "script demo_env (Some (demo_pdf 2)) True [] = [St_error msg_paste_key]"
    by simp
  from bad_credentials_stop_the_run [of "ascii ''not json''" demo_env
      "Exception (ascii ''Expecting value'')" "demo_pdf 2"] bad ne
  have b: "script demo_env (Some (demo_pdf 2)) True (ascii ''not json'') =
     [Call_json_loads (ascii ''not json''),
      St_error (ascii ''An error occurred: '' @ ascii ''Expecting value''), St_error msg_hint]"
    "pdf_opens (script demo_env (Some (demo_pdf 2)) True (ascii ''not json'')) = []"
    "ocr_requests (script demo_env (Some (demo_pdf 2)) True (ascii ''not json'')) = []"
    by simp_all
  have "ascii ''An error occurred: '' @ ascii ''Expecting value'' =
      ascii ''An error occurred: Expecting value''"
    by (simp add: ascii_def)
  with bad a b show ?thesis by simp
qed

lemma length_doc_events: "length (doc_events ts) = 2 * length ts - 1"
  by (induction ts rule: doc_events.induct) simp_all

text \<open>
  Claim C8, as it holds. The steps of a run come in order: every call of the rasterizer
  comes before every call to the remote service and every progress update, and these
  before the document is built and written and the files are offered. In a run that
  reaches its end, the message that follows the rasterizer's calls states the number \<open>N\<close>
  of page images (which is the number of pages of the PDF) as a decimal numeral without
  leading zero; then, for \<open>k = 1, ..., N\<close>, the call for page \<open>k\<close> is followed by a
  progress update. Its value is \<^verbatim>\<open>k / N\<close> as Python computes it: the double nearest
  to the fraction \<open>k / N\<close>, which differs from the fraction by at most \<open>2\<^sup>-\<^sup>5\<^sup>3\<close> and is
  not the fraction itself in general (for \<open>1 / 3\<close>, say). The last update is exactly 1.
\<close>

theorem orchestration_order_and_progress:
  "sorted (steps (script env uploaded_file button key)) \<and>
   (try_body env f key = (Inr r, evs) \<longrightarrow>
      (\<exists>A R rs B ds.
         evs = A @ R @
           [St_info (ascii ''Step 2/3: Sending '' @ ds @ ascii '' pages to Google for OCR...''),
            St_progress 0] @
           page_events (length (image_list r)) 0 (zip (image_list r) rs) @ B \<and>
         steps A = [] \<and> R \<noteq> [] \<and> steps R = replicate (length R) 1 \<and>
         length rs = length (image_list r) \<and>
         steps B = replicate (2 * length (image_list r) - 1 + 3) 3 \<and>
         ds \<noteq> [] \<and> set ds \<subseteq> {48..57} \<and> decimal_value ds = length (image_list r) \<and>
         (image_list r \<noteq> [] \<longrightarrow> hd ds \<noteq> 48)) \<and>
      (\<forall>d. fitz_open env (getvalue f) = Inr d \<longrightarrow> length (image_list r) = doc_len env d) \<and>
      progress_reports evs =
        map (\<lambda>k. nearest_double (k + 1) (length (image_list r)))
          [0..<length (image_list r)] \<and>
      (\<forall>k < length (image_list r).
         \<bar>progress_reports evs ! k - of_nat (k + 1) / of_nat (length (image_list r))\<bar>
           \<le> 1 / 2 ^ 53) \<and>
      (image_list r \<noteq> [] \<longrightarrow> last (progress_reports evs) = 1))"
proof (intro conjI impI allI)
  from script_steps [of env uploaded_file button key] obtain a b c where
    "steps (script env uploaded_file button key) =
       replicate a 1 @ replicate b 2 @ replicate c 3"
    by blast
  then show "sorted (steps (script env uploaded_file button key))"
    by (simp only: sorted_steps_123)
next
  assume run: "try_body env f key = (Inr r, evs)"
  define N where "N = length (image_list r)"
  from run obtain info cred client pe data where
    p: "processing env f client = (Inr r, pe)" and
    evs: "evs = [Call_json_loads key, Call_from_service_account_info,
            Call_ImageAnnotatorClient, St_spinner_enter msg_processing] @ pe @
           [St_spinner_exit, St_success msg_success,
            St_download_button label_txt data (base_filename r @ ascii ''_OCR.txt'') mime_txt,
            St_download_button label_docx (doc_byte_arr r)
              (base_filename r @ ascii ''_OCR.docx'') mime_docx]"
    by (rule try_body_success)
  from p obtain d R0 rs where
    l: "convert_loop env d [0..<doc_len env d] [] = (Inr (image_list r), R0)" and
    rs: "length rs = length (image_list r)" "full_text r = map annotation_text rs" and
    pe: "pe = [St_info msg_step1, Call_fitz_open (getvalue f)] @ R0 @
          [Call_close, St_info (msg_step2 (length (image_list r))), St_progress 0] @
          page_events (length (image_list r)) 0 (zip (image_list r) rs) @
          [St_info msg_step3] @ doc_events (full_text r) @ [Call_docx_save]"
    by (rule processing_success)
  from convert_loop_steps [of env d "[0..<doc_len env d]" "[]"] l
  have "\<forall>ev \<in> set R0. step_of ev = [1]" by simp
  then have R0: "steps R0 = replicate (length R0) 1" by (rule step1_readers(1))
  define A where "A = [Call_json_loads key, Call_from_service_account_info,
    Call_ImageAnnotatorClient, St_spinner_enter msg_processing, St_info msg_step1]"
  define R where "R = Call_fitz_open (getvalue f) # R0 @ [Call_close]"
  define B where "B = [St_info msg_step3] @ doc_events (full_text r) @
    [Call_docx_save, St_spinner_exit, St_success msg_success,
     St_download_button label_txt data (base_filename r @ ascii ''_OCR.txt'') mime_txt,
     St_download_button label_docx (doc_byte_arr r)
       (base_filename r @ ascii ''_OCR.docx'') mime_docx]"
  have shape: "evs = A @ R @
      [St_info (ascii ''Step 2/3: Sending '' @ str_nat (length (image_list r)) @
                ascii '' pages to Google for OCR...''),
       St_progress 0] @
      page_events (length (image_list r)) 0 (zip (image_list r) rs) @ B"
    by (simp add: evs pe A_def R_def B_def msg_step2_def)
  have sA: "steps A = []" by (simp add: A_def)
  have nR: "R \<noteq> []" by (simp add: R_def)
  have sR: "steps R = replicate (length R) 1"
    by (simp add: R_def R0 replicate_append_same)
  from rs have nt: "length (full_text r) = length (image_list r)" by simp
  have "replicate 3 (3::nat) = [3, 3, 3]" by (simp add: numeral_3_eq_3)
  then have three: "replicate c (3::nat) @ [3, 3, 3] = replicate (c + 3) 3" for c
    by (simp only: replicate_add)
  have "steps B = replicate (length (doc_events (full_text r))) 3 @ [3, 3, 3]"
    by (simp add: B_def doc_events_readers(1))
  then have "steps B = replicate (length (doc_events (full_text r)) + 3) 3"
    by (simp only: three)
  then have sB: "steps B = replicate (2 * length (image_list r) - 1 + 3) 3"
    by (simp only: length_doc_events nt)
  have digits: "str_nat (length (image_list r)) \<noteq> []"
    "set (str_nat (length (image_list r))) \<subseteq> {48..57}"
    "decimal_value (str_nat (length (image_list r))) = length (image_list r)"
    "image_list r \<noteq> [] \<longrightarrow> hd (str_nat (length (image_list r))) \<noteq> 48"
    by (simp_all add: str_nat_not_empty str_nat_digits decimal_value_str_nat
          str_nat_no_leading_zero)
  from shape sA nR sR rs(1) sB digits show "\<exists>A R rs B ds.
         evs = A @ R @
           [St_info (ascii ''Step 2/3: Sending '' @ ds @ ascii '' pages to Google for OCR...''),
            St_progress 0] @
           page_events (length (image_list r)) 0 (zip (image_list r) rs) @ B \<and>
         steps A = [] \<and> R \<noteq> [] \<and> steps R = replicate (length R) 1 \<and>
         length rs = length (image_list r) \<and>
         steps B = replicate (2 * length (image_list r) - 1 + 3) 3 \<and>
         ds \<noteq> [] \<and> set ds \<subseteq> {48..57} \<and> decimal_value ds = length (image_list r) \<and>
         (image_list r \<noteq> [] \<longrightarrow> hd ds \<noteq> 48)"
    by (intro exI [of _ A] exI [of _ R] exI [of _ rs] exI [of _ B]
          exI [of _ "str_nat (length (image_list r))"] conjI)
  note rd = success_readers [OF run]
  show prog: "progress_reports evs =
        map (\<lambda>k. nearest_double (k + 1) (length (image_list r)))
          [0..<length (image_list r)]"
    by (rule rd(4))
  show "length (image_list r) = doc_len env d'" if "fitz_open env (getvalue f) = Inr d'" for d'
    using success_images(1) [OF run that] .
  show "\<bar>progress_reports evs ! k - of_nat (k + 1) / of_nat (length (image_list r))\<bar>
           \<le> 1 / 2 ^ 53"
    if "k < length (image_list r)" for k
  proof -
    from that have "progress_reports evs ! k = nearest_double (k + 1) (length (image_list r))"
      by (simp add: prog)
    moreover from that have "0 < k + 1" "k + 1 \<le> length (image_list r)" by simp_all
    then have "\<bar>nearest_double (k + 1) (length (image_list r)) -
        of_nat (k + 1) / of_nat (length (image_list r))\<bar> \<le> 1 / 2 ^ 53"
      by (rule nearest_double_error)
    ultimately show ?thesis by (simp only:)
  qed
  show "last (progress_reports evs) = 1" if "image_list r \<noteq> []"
  proof -
    from that have n: "0 < N" by (simp add: N_def)
    then have "[0..<N] \<noteq> []" by simp
    then have "last (map (\<lambda>k. nearest_double (k + 1) N) [0..<N]) =
        nearest_double (last [0..<N] + 1) N"
      by (rule last_map)
    moreover from n have "last [0..<N] + 1 = N" by simp
    ultimately have "last (map (\<lambda>k. nearest_double (k + 1) N) [0..<N]) = nearest_double N N"
      by (simp only:)
    with nearest_double_same [OF n]
    have "last (map (\<lambda>k. nearest_double (k + 1) N) [0..<N]) = 1"
      by (simp only:)
    then show ?thesis by (simp only: prog N_def)
  qed
qed

theorem orchestration_order_and_progress_witness:
  "\<exists>r evs. try_body demo_env (demo_pdf 2) demo_key = (Inr r, evs) \<and>
     image_list r \<noteq> [] \<and> fitz_open demo_env (getvalue (demo_pdf 2)) = Inr 2 \<and>
     (0::nat) < length (image_list r) \<and>
     length (image_list r) = doc_len demo_env 2 \<and>
     shown evs =
       [msg_processing, msg_step1, ascii ''Step 2/3: Sending 2 pages to Google for OCR...'',
        msg_step3, msg_success] \<and>
     progress_reports evs = [1 / 2, 1] \<and> last (progress_reports evs) = 1 \<and>
     \<bar>progress_reports evs ! 0 - of_nat (0 + 1) / of_nat (length (image_list r))\<bar>
       \<le> 1 / 2 ^ 53 \<and>
     sorted (steps (script demo_env (Some (demo_pdf 2)) True demo_key))"
proof -
  obtain r evs where run: "try_body demo_env (demo_pdf 2) demo_key = (Inr r, evs)"
    and imgs: "image_list r = [[1], [2]]" and prog: "progress_reports evs = [1 / 2, 1]"
    and shown: "shown evs = [msg_processing, msg_step1, msg_step2 2, msg_step3, msg_success]"
    by (rule demo_run_2_facts [OF demo_files(1)])
  from imgs have ne: "image_list r \<noteq> []" and pos: "(0::nat) < length (image_list r)"
    by simp_all
  have pdf: "fitz_open demo_env (getvalue (demo_pdf 2)) = Inr 2"
    by (simp add: demo_env_simps demo_pdf_def)
  have msg: "msg_step2 2 = ascii ''Step 2/3: Sending 2 pages to Google for OCR...''"
    by (simp add: msg_step2_def str_nat_small ascii_def)
  from orchestration_order_and_progress [of demo_env "Some (demo_pdf 2)" True demo_key
      "demo_pdf 2" r evs] run ne pdf pos
  have "sorted (steps (script demo_env (Some (demo_pdf 2)) True demo_key))"
    "last (progress_reports evs) = 1" "length (image_list r) = doc_len demo_env 2"
    "\<bar>progress_reports evs ! 0 - of_nat (0 + 1) / of_nat (length (image_list r))\<bar>
       \<le> 1 / 2 ^ 53"
    by blast+
  with run ne pdf pos prog shown [unfolded msg] show ?thesis by blast
qed

text \<open>
  The claim as the specification words it (the progress reported after page \<open>k\<close> of \<open>N\<close>
  equals \<open>k / N\<close>) fails on a PDF of three pages: the run reaches its end and the numbers
  reported are the doubles \<^verbatim>\<open>0.3333333333333333\<close>, \<^verbatim>\<open>0.6666666666666666\<close> and
  \<^verbatim>\<open>1.0\<close>, of which the first is not \<open>1 / 3\<close> and the second is not \<open>2 / 3\<close>.
\<close>

theorem progress_fraction_counterexample:
  "fst (try_body demo_env (demo_pdf 3) demo_key) =
     Inr \<lparr>image_list = [[1], [2], [3]],
          full_text = demo_texts @ [[0x633, 0x644, 0x627, 0x645]],
          base_filename = ascii ''scan'',
          txt_output = make_txt_output (demo_texts @ [[0x633, 0x644, 0x627, 0x645]]),
          doc = doc_body (demo_texts @ [[0x633, 0x644, 0x627, 0x645]]),
          doc_byte_arr = [5]\<rparr> \<and>
   progress_reports (script demo_env (Some (demo_pdf 3)) True demo_key) =
     [6004799503160661 / 18014398509481984, 6004799503160661 / 9007199254740992, 1] \<and>
   (6004799503160661 / 18014398509481984 :: rat) \<noteq> 1 / 3 \<and>
   (6004799503160661 / 9007199254740992 :: rat) \<noteq> 2 / 3"
proof -
  obtain evs where run: "try_body demo_env (demo_pdf 3) demo_key =
     (Inr \<lparr>image_list = [[1], [2], [3]],
          full_text = demo_texts @ [[0x633, 0x644, 0x627, 0x645]],
          base_filename = ascii ''scan'',
          txt_output = make_txt_output (demo_texts @ [[0x633, 0x644, 0x627, 0x645]]),
          doc = doc_body (demo_texts @ [[0x633, 0x644, 0x627, 0x645]]),
          doc_byte_arr = [5]\<rparr>, evs)"
    using demo_run_3 by (cases "try_body demo_env (demo_pdf 3) demo_key") simp
  have l3: "length [[1], [2], [3::8 word]] = 3" by simp
  from success_readers(4) [OF run] have
    "progress_reports evs = map (\<lambda>k. nearest_double (k + 1) 3) [0..<3]"
    by (simp only: results.select_convs l3)
  also have "\<dots> = [nearest_double (0 + 1) 3, nearest_double (1 + 1) 3,
      nearest_double (2 + 1) 3]"
    by (simp only: upt_0_3 list.map)
  also have "\<dots> = [nearest_double (Suc 0) 3, nearest_double (Suc (Suc 0)) 3,
      nearest_double (Suc (Suc (Suc 0))) 3]"
  proof -
    have "(0::nat) + 1 = Suc 0" "(1::nat) + 1 = Suc (Suc 0)" "(2::nat) + 1 = Suc (Suc (Suc 0))"
      by simp_all
    then show ?thesis by (simp only:)
  qed
  finally have "progress_reports evs =
      [6004799503160661 / 18014398509481984, 6004799503160661 / 9007199254740992, 1]"
    by (simp only: demo_progress)
  with script_run(1) [OF demo_key_parts(1) run]
  have a: "progress_reports (script demo_env (Some (demo_pdf 3)) True demo_key) =
     [6004799503160661 / 18014398509481984, 6004799503160661 / 9007199254740992, 1]"
    by (simp only:)
  have b: "(6004799503160661 / 18014398509481984 :: rat) \<noteq> 1 / 3"
    "(6004799503160661 / 9007199254740992 :: rat) \<noteq> 2 / 3"
    by simp_all
  from demo_run_3 a b show ?thesis by (intro conjI)
qed



end
